theory Spec2Isabelle
  imports Main "HOL-Library.Sublist"
begin


section \<open>The reactive engine of mini-vue.js\<close>

text \<open>
  The engine of \<^verbatim>\<open>src/mini-vue.js\<close> keeps its state in module-level variables
  (\<^verbatim>\<open>targetMap\<close>, \<^verbatim>\<open>activeEffect\<close>, \<^verbatim>\<open>effectStack\<close>, \<^verbatim>\<open>queue\<close>, \<^verbatim>\<open>isFlushing\<close>) and
  in closures (\<^verbatim>\<open>effectFn.deps\<close>, \<^verbatim>\<open>effectFn.options\<close>, a computed's \<^verbatim>\<open>value\<close> and
  \<^verbatim>\<open>dirty\<close>). The model threads one record of that state through every function.
  The functions that call user code (the function of an effect, a scheduler, a getter)
  are interpreted with fuel: \<open>None\<close> means that the fuel ran out, \<open>Some (Exc, s)\<close>
  that a JavaScript exception propagated out with the state \<open>s\<close> left behind, and
  \<open>Some (Normal v, s)\<close> that the call returned \<open>v\<close>.
\<close>

subsection \<open>Values, objects and identities\<close>

type_synonym key = string

text \<open>
  An object is a plain object (\<open>Raw a\<close>, the object at address \<open>a\<close>) or a
  \<^verbatim>\<open>Proxy\<close> made by \<^verbatim>\<open>reactive\<close>: \<open>Prx p t\<close> is the proxy with identity \<open>p\<close> and
  target \<open>t\<close> (a proxy never changes its target, and the target may be a proxy).
  Numbers are the integers and \<^verbatim>\<open>NaN\<close>, the one number for which \<^verbatim>\<open>!==\<close> differs from
  equality.
\<close>

datatype obj = Raw nat | Prx nat obj

datatype val = VUndef | VNull | VBool bool | VNum int | VNaN | VStr string | VObj obj

text \<open>A key of \<^verbatim>\<open>targetMap\<close>: an object, or the \<^verbatim>\<open>computedRef\<close> of a computed.\<close>

datatype target = Obj obj | Cmp nat

text \<open>
  An effect function: \<open>Usr i\<close> is the \<open>i\<close>-th handle returned by \<^verbatim>\<open>effect\<close> to user
  code, \<open>Inner c\<close> the \<^verbatim>\<open>effectFn\<close> that \<^verbatim>\<open>computed\<close> keeps in its closure for the
  computed \<open>c\<close> (user code never holds it).
\<close>

datatype eref = Usr nat | Inner nat

datatype res = Normal val | Exc

text \<open>
  User code (the function given to \<^verbatim>\<open>effect\<close>, a getter, a scheduler, a script) is a
  tree of the operations it performs on the engine, each with the continuation that
  receives the operation's result:
  \<^item> \<open>Get o k f\<close> reads \<^verbatim>\<open>o[k]\<close>, \<open>Put o k v p\<close> assigns \<^verbatim>\<open>o[k] = v\<close>;
  \<^item> \<open>Reactive o f\<close> calls \<^verbatim>\<open>reactive(o)\<close>;
  \<^item> \<open>Effect g lz sch f\<close> calls \<^verbatim>\<open>effect(g, {lazy: lz, scheduler: sch})\<close>;
  \<^item> \<open>Invoke i f\<close> calls the handle \<open>i\<close>;
  \<^item> \<open>Computed g f\<close> calls \<^verbatim>\<open>computed(g)\<close>, \<open>Value c f\<close> reads \<^verbatim>\<open>c.value\<close>;
  \<^item> \<open>Try p f\<close> runs \<open>p\<close> in a \<^verbatim>\<open>try\<close> block and continues with its outcome;
  \<^item> \<open>Ret v\<close> returns and \<open>Throw\<close> raises.
\<close>

datatype prog =
    Ret val
  | Throw
  | Get obj key "val \<Rightarrow> prog"
  | Put obj key val prog
  | Reactive obj "obj \<Rightarrow> prog"
  | Effect prog bool "(nat \<Rightarrow> prog) option" "nat \<Rightarrow> prog"
  | Invoke nat "val \<Rightarrow> prog"
  | Computed prog "nat \<Rightarrow> prog"
  | Value nat "val \<Rightarrow> prog"
  | Try prog "res \<Rightarrow> prog"

text \<open>
  \<^verbatim>\<open>options.scheduler\<close>: a user's function of the effect handle, or the scheduler
  that \<^verbatim>\<open>computed\<close> builds for its own effect.
\<close>

datatype sched = UserSched "nat \<Rightarrow> prog" | CompSched nat

record effect_rec =
  fn :: prog
  lazy :: bool
  scheduler :: "sched option"
  deps :: "(target \<times> key) list"

text \<open>
  The history of calls, newest first. No function of the model reads it: it is there
  for the theorems to speak about what was called.
\<close>

datatype event =
    Run eref
  | Aborted eref
  | Tracked eref target key
  | Triggered target key
  | Dispatched eref
  | Job eref
  | Read nat

text \<open>
  A \<^verbatim>\<open>Set\<close> of effects is a list without repetition in insertion order, the order
  \<^verbatim>\<open>forEach\<close> visits. \<^verbatim>\<open>targetMap\<close> holds the one \<^verbatim>\<open>Set\<close> of each (target, key):
  the code creates it when the pair is first tracked and never replaces or removes it,
  so the references to it in \<^verbatim>\<open>effectFn.deps\<close> are modelled by the pair itself.
\<close>

record state =
  heap :: "nat \<Rightarrow> key \<Rightarrow> val option"
  next_proxy :: nat
  effects :: "eref \<Rightarrow> effect_rec"
  n_effects :: nat
  comp_value :: "nat \<Rightarrow> val"
  comp_dirty :: "nat \<Rightarrow> bool"
  n_computeds :: nat
  targetMap :: "target \<Rightarrow> (key \<Rightarrow> eref list option) option"
  activeEffect :: "eref option"
  effectStack :: "eref list"
  queue :: "eref list"
  isFlushing :: bool
  microtasks :: nat
  log :: "event list"

definition emit :: "event \<Rightarrow> state \<Rightarrow> state" where
  "emit ev s = s\<lparr>log := ev # log s\<rparr>"

definition set_add :: "eref \<Rightarrow> eref list \<Rightarrow> eref list" where
  "set_add e xs = (if e \<in> set xs then xs else xs @ [e])"

definition set_delete :: "eref \<Rightarrow> eref list \<Rightarrow> eref list" where
  "set_delete e xs = removeAll e xs"

text \<open>The \<^verbatim>\<open>Set\<close> of (target, key), empty when \<^verbatim>\<open>targetMap\<close> has none.\<close>

definition dep_of :: "state \<Rightarrow> target \<Rightarrow> key \<Rightarrow> eref list" where
  "dep_of s t k =
     (case targetMap s t of
        None \<Rightarrow> []
      | Some depsMap \<Rightarrow> (case depsMap k of None \<Rightarrow> [] | Some dep \<Rightarrow> dep))"

text \<open>A handle exists once \<^verbatim>\<open>effect\<close> or \<^verbatim>\<open>computed\<close> has made it.\<close>

fun created :: "eref \<Rightarrow> state \<Rightarrow> bool" where
  "created (Usr i) s = (i < n_effects s)"
| "created (Inner c) s = (c < n_computeds s)"

subsection \<open>cleanup and track\<close>

text \<open>\<^verbatim>\<open>dep.delete(effectFn)\<close> on the \<^verbatim>\<open>Set\<close> of one (target, key).\<close>

definition dep_delete :: "eref \<Rightarrow> target \<times> key \<Rightarrow> state \<Rightarrow> state" where
  "dep_delete e d s =
     (case targetMap s (fst d) of
        None \<Rightarrow> s
      | Some depsMap \<Rightarrow>
          (case depsMap (snd d) of
             None \<Rightarrow> s
           | Some dep \<Rightarrow>
               s\<lparr>targetMap := (targetMap s)(fst d \<mapsto> depsMap(snd d \<mapsto> set_delete e dep))\<rparr>))"

definition cleanup :: "eref \<Rightarrow> state \<Rightarrow> state" where
  "cleanup e s =
     (let s1 = fold (dep_delete e) (deps (effects s e)) s
      in s1\<lparr>effects := (effects s1)(e := (effects s1 e)\<lparr>deps := []\<rparr>)\<rparr>)"

definition track :: "target \<Rightarrow> key \<Rightarrow> state \<Rightarrow> state" where
  "track t k s =
     (case activeEffect s of
        None \<Rightarrow> s
      | Some e \<Rightarrow>
          (let depsMap = (case targetMap s t of None \<Rightarrow> Map.empty | Some m \<Rightarrow> m);
               dep = (case depsMap k of None \<Rightarrow> [] | Some d \<Rightarrow> d)
           in s\<lparr>targetMap := (targetMap s)(t \<mapsto> depsMap(k \<mapsto> set_add e dep)),
                effects := (effects s)(e := (effects s e)\<lparr>deps := deps (effects s e) @ [(t, k)]\<rparr>),
                log := Tracked e t k # log s\<rparr>))"

subsection \<open>The scheduler queue\<close>

text \<open>
  \<^verbatim>\<open>Promise.resolve().then(...)\<close> adds one more pending callback for the flush;
  every such callback is the same closure, so the model counts them.
\<close>

definition queueJob :: "eref \<Rightarrow> state \<Rightarrow> state" where
  "queueJob job s =
     (let s1 = s\<lparr>queue := set_add job (queue s)\<rparr>
      in if \<not> isFlushing s1
         then s1\<lparr>isFlushing := True, microtasks := Suc (microtasks s1)\<rparr>
         else s1)"

subsection \<open>reactive: the get trap\<close>

definition reactive :: "obj \<Rightarrow> state \<Rightarrow> obj \<times> state" where
  "reactive t s = (Prx (next_proxy s) t, s\<lparr>next_proxy := Suc (next_proxy s)\<rparr>)"

fun typeof :: "val \<Rightarrow> string" where
  "typeof VUndef = ''undefined''"
| "typeof VNull = ''object''"
| "typeof (VBool b) = ''boolean''"
| "typeof (VNum n) = ''number''"
| "typeof VNaN = ''number''"
| "typeof (VStr x) = ''string''"
| "typeof (VObj x) = ''object''"

text \<open>\<^verbatim>\<open>a !== b\<close> is \<open>\<not> strict_eq a b\<close>.\<close>

fun strict_eq :: "val \<Rightarrow> val \<Rightarrow> bool" where
  "strict_eq VNaN b = False"
| "strict_eq a VNaN = False"
| "strict_eq a b = (a = b)"

text \<open>
  The result of the \<^verbatim>\<open>get\<close> trap:
  \<^verbatim>\<open>typeof result === 'object' && result !== null ? reactive(result) : result\<close>.
\<close>

definition deep :: "val \<Rightarrow> state \<Rightarrow> val \<times> state" where
  "deep result s =
     (if typeof result = ''object'' \<and> result \<noteq> VNull
      then (case result of
              VObj x \<Rightarrow> (case reactive x s of (w, s1) \<Rightarrow> (VObj w, s1))
            | _ \<Rightarrow> (result, s))
      else (result, s))"

text \<open>
  \<open>get_prop o k\<close> is the read \<^verbatim>\<open>o[k]\<close>. On a plain object it is the stored value or
  \<^verbatim>\<open>undefined\<close>. On a proxy it is the \<^verbatim>\<open>get\<close> trap: \<^verbatim>\<open>Reflect.get\<close> on the target,
  \<^verbatim>\<open>track\<close>, and a new proxy around a result that is an object.
\<close>

fun get_prop :: "obj \<Rightarrow> key \<Rightarrow> state \<Rightarrow> val \<times> state" where
  "get_prop (Raw a) k s = (case heap s a k of None \<Rightarrow> VUndef | Some v \<Rightarrow> v, s)"
| "get_prop (Prx p t) k s =
     (case get_prop t k s of (result, s1) \<Rightarrow> deep result (track (Obj t) k s1))"

subsection \<open>Effects, trigger, the set trap and computed values\<close>

definition bind ::
  "(res \<times> state) option \<Rightarrow> (val \<Rightarrow> state \<Rightarrow> (res \<times> state) option) \<Rightarrow> (res \<times> state) option"
where
  "bind m f =
     (case m of
        None \<Rightarrow> None
      | Some (Exc, s) \<Rightarrow> Some (Exc, s)
      | Some (Normal v, s) \<Rightarrow> f v s)"

text \<open>\<^verbatim>\<open>effectFn.deps = []; effectFn.options = options\<close> for a new handle.\<close>

definition new_effect :: "eref \<Rightarrow> prog \<Rightarrow> bool \<Rightarrow> sched option \<Rightarrow> state \<Rightarrow> state" where
  "new_effect e g lz sch s =
     s\<lparr>effects := (effects s)(e := \<lparr>fn = g, lazy = lz, scheduler = sch, deps = []\<rparr>)\<rparr>"

text \<open>
  \<^verbatim>\<open>computed(getter)\<close>: \<^verbatim>\<open>value\<close> is undefined, \<^verbatim>\<open>dirty\<close> is true, and the effect is
  lazy with the scheduler of the computed.
\<close>

definition new_computed :: "prog \<Rightarrow> state \<Rightarrow> state" where
  "new_computed g s =
     (let c = n_computeds s;
          s1 = s\<lparr>comp_value := (comp_value s)(c := VUndef),
                 comp_dirty := (comp_dirty s)(c := True),
                 n_computeds := Suc c\<rparr>
      in new_effect (Inner c) g True (Some (CompSched c)) s1)"

text \<open>Steps 2 and 3 of \<^verbatim>\<open>effectFn\<close>, and steps 5 and 6.\<close>

definition activate :: "eref \<Rightarrow> state \<Rightarrow> state" where
  "activate e s = s\<lparr>activeEffect := Some e, effectStack := effectStack s @ [e]\<rparr>"

definition deactivate :: "state \<Rightarrow> state" where
  "deactivate s =
     (let st = butlast (effectStack s)
      in s\<lparr>effectStack := st,
           activeEffect := (if st = [] then None else Some (last st))\<rparr>)"

definition heap_set :: "nat \<Rightarrow> key \<Rightarrow> val \<Rightarrow> state \<Rightarrow> state" where
  "heap_set a k v s = s\<lparr>heap := (heap s)(a := (heap s a)(k \<mapsto> v))\<rparr>"

definition mark_dirty :: "nat \<Rightarrow> state \<Rightarrow> state" where
  "mark_dirty c s = s\<lparr>comp_dirty := (comp_dirty s)(c := True)\<rparr>"

definition cache :: "nat \<Rightarrow> val \<Rightarrow> state \<Rightarrow> state" where
  "cache c v s = s\<lparr>comp_value := (comp_value s)(c := v), comp_dirty := (comp_dirty s)(c := False)\<rparr>"

text \<open>
  The functions that call user code call each other, so they are one function \<open>run\<close>
  of the call to make, defined by recursion on the fuel; \<open>exec\<close>, \<open>effectFn\<close>,
  \<open>trigger\<close>, \<open>forEach_effects\<close>, \<open>dispatch\<close>, \<open>set_prop\<close> and \<open>computed_value\<close>
  below name its kinds of call.
  \<^item> \<open>Exec p\<close> runs user code.
  \<^item> \<open>EffectFn e\<close> is the handle of an effect: cleanup, activate, run \<^verbatim>\<open>fn\<close>,
    deactivate. There is no \<^verbatim>\<open>try\<close> in the source, so an exception of \<^verbatim>\<open>fn\<close> leaves
    at once. Calling a handle that was never created fails.
  \<^item> \<open>Trigger t k\<close> is the final \<^verbatim>\<open>trigger\<close> of the file (the later declaration of
    the two, which have the same body); \<open>ForEach es\<close> is its \<^verbatim>\<open>effects.forEach\<close> over
    the copy \<^verbatim>\<open>new Set(dep)\<close>, and \<open>Dispatch e\<close> the callback it calls on each entry
    (a user's scheduler is called with the handle; the scheduler of a computed sets
    \<^verbatim>\<open>dirty\<close> and triggers the computed).
  \<^item> \<open>SetProp o k v\<close> is the assignment \<^verbatim>\<open>o[k] = v\<close>: a store on a plain object,
    the \<^verbatim>\<open>set\<close> trap on a proxy.
  \<^item> \<open>ComputedValue c\<close> is the getter \<^verbatim>\<open>get value ()\<close> of a computed.
\<close>

datatype call =
    Exec prog
  | EffectFn eref
  | Trigger target key
  | ForEach "eref list"
  | Dispatch eref
  | SetProp obj key val
  | ComputedValue nat

primrec run :: "nat \<Rightarrow> call \<Rightarrow> state \<Rightarrow> (res \<times> state) option" where
  "run 0 c s = None"
| "run (Suc n) c s =
   (case c of
      Exec (Ret v) \<Rightarrow> Some (Normal v, s)
    | Exec Throw \<Rightarrow> Some (Exc, s)
    | Exec (Get x k f) \<Rightarrow> (case get_prop x k s of (v, s1) \<Rightarrow> run n (Exec (f v)) s1)
    | Exec (Put x k v p) \<Rightarrow> bind (run n (SetProp x k v) s) (\<lambda>_ s1. run n (Exec p) s1)
    | Exec (Reactive x f) \<Rightarrow> (case reactive x s of (w, s1) \<Rightarrow> run n (Exec (f w)) s1)
    | Exec (Effect g lz sch f) \<Rightarrow>
       (let i = n_effects s;
            s1 = new_effect (Usr i) g lz (map_option UserSched sch) (s\<lparr>n_effects := Suc i\<rparr>)
        in if \<not> lz
           then bind (run n (EffectFn (Usr i)) s1) (\<lambda>_ s2. run n (Exec (f i)) s2)
           else run n (Exec (f i)) s1)
    | Exec (Invoke i f) \<Rightarrow> bind (run n (EffectFn (Usr i)) s) (\<lambda>v s1. run n (Exec (f v)) s1)
    | Exec (Computed g f) \<Rightarrow> run n (Exec (f (n_computeds s))) (new_computed g s)
    | Exec (Value c f) \<Rightarrow>
       (if c < n_computeds s
        then bind (run n (ComputedValue c) s) (\<lambda>v s1. run n (Exec (f v)) s1)
        else Some (Exc, s))
    | Exec (Try p f) \<Rightarrow>
       (case run n (Exec p) s of None \<Rightarrow> None | Some (r, s1) \<Rightarrow> run n (Exec (f r)) s1)
    | EffectFn e \<Rightarrow>
       (if \<not> created e s then Some (Exc, s)
        else
          (let s1 = cleanup e (emit (Run e) s);
               s2 = activate e s1
           in case run n (Exec (fn (effects s2 e))) s2 of
                None \<Rightarrow> None
              | Some (Exc, s3) \<Rightarrow> Some (Exc, emit (Aborted e) s3)
              | Some (Normal result, s3) \<Rightarrow> Some (Normal result, deactivate s3)))
    | Trigger t k \<Rightarrow>
       (let s0 = emit (Triggered t k) s
        in case targetMap s0 t of
             None \<Rightarrow> Some (Normal VUndef, s0)
           | Some depsMap \<Rightarrow>
               (case depsMap k of
                  None \<Rightarrow> Some (Normal VUndef, s0)
                | Some dep \<Rightarrow> run n (ForEach dep) s0))
    | ForEach [] \<Rightarrow> Some (Normal VUndef, s)
    | ForEach (e # es) \<Rightarrow> bind (run n (Dispatch e) s) (\<lambda>_ s1. run n (ForEach es) s1)
    | Dispatch e \<Rightarrow>
       (let s0 = emit (Dispatched e) s
        in case scheduler (effects s0 e) of
             Some (UserSched f) \<Rightarrow>
               (case e of Usr i \<Rightarrow> run n (Exec (f i)) s0 | Inner c \<Rightarrow> Some (Exc, s0))
           | Some (CompSched c) \<Rightarrow> run n (Trigger (Cmp c) ''value'') (mark_dirty c s0)
           | None \<Rightarrow> Some (Normal VUndef, queueJob e s0))
    | SetProp (Raw a) k v \<Rightarrow> Some (Normal (VBool True), heap_set a k v s)
    | SetProp (Prx p t) k v \<Rightarrow>
       (case get_prop t k s of
          (oldValue, s1) \<Rightarrow>
            bind (run n (SetProp t k v) s1)
              (\<lambda>result s2.
                 if \<not> strict_eq oldValue v
                 then bind (run n (Trigger (Obj t) k) s2) (\<lambda>_ s3. Some (Normal result, s3))
                 else Some (Normal result, s2)))
    | ComputedValue c \<Rightarrow>
       (let s0 = emit (Read c) s
        in bind
             (if comp_dirty s0 c
              then bind (run n (EffectFn (Inner c)) s0) (\<lambda>v s1. Some (Normal VUndef, cache c v s1))
              else Some (Normal VUndef, s0))
             (\<lambda>_ s2. let s3 = track (Cmp c) ''value'' s2 in Some (Normal (comp_value s3 c), s3))))"

abbreviation exec :: "nat \<Rightarrow> prog \<Rightarrow> state \<Rightarrow> (res \<times> state) option" where
  "exec n p \<equiv> run n (Exec p)"

abbreviation effectFn :: "nat \<Rightarrow> eref \<Rightarrow> state \<Rightarrow> (res \<times> state) option" where
  "effectFn n e \<equiv> run n (EffectFn e)"

abbreviation trigger :: "nat \<Rightarrow> target \<Rightarrow> key \<Rightarrow> state \<Rightarrow> (res \<times> state) option" where
  "trigger n t k \<equiv> run n (Trigger t k)"

abbreviation forEach_effects :: "nat \<Rightarrow> eref list \<Rightarrow> state \<Rightarrow> (res \<times> state) option" where
  "forEach_effects n es \<equiv> run n (ForEach es)"

abbreviation dispatch :: "nat \<Rightarrow> eref \<Rightarrow> state \<Rightarrow> (res \<times> state) option" where
  "dispatch n e \<equiv> run n (Dispatch e)"

abbreviation set_prop :: "nat \<Rightarrow> obj \<Rightarrow> key \<Rightarrow> val \<Rightarrow> state \<Rightarrow> (res \<times> state) option" where
  "set_prop n x k v \<equiv> run n (SetProp x k v)"

abbreviation computed_value :: "nat \<Rightarrow> nat \<Rightarrow> state \<Rightarrow> (res \<times> state) option" where
  "computed_value n c \<equiv> run n (ComputedValue c)"

subsection \<open>The flush\<close>

text \<open>
  \<open>flush_jobs\<close> is \<^verbatim>\<open>queue.forEach(j => j())\<close>: the \<^verbatim>\<open>forEach\<close> of a \<^verbatim>\<open>Set\<close> visits the
  entries in insertion order and also those added while it runs, so it walks the live
  queue by position. \<open>flush\<close> is the callback given to the promise; \<open>run_microtasks\<close>
  runs the pending callbacks after the synchronous code (an exception in a callback
  rejects its promise and goes no further), and \<open>run_task\<close> is one such extent:
  a script, then the microtasks.
\<close>

fun flush_jobs :: "nat \<Rightarrow> nat \<Rightarrow> state \<Rightarrow> (res \<times> state) option" where
  "flush_jobs 0 i s = None"
| "flush_jobs (Suc n) i s =
     (if i < length (queue s)
      then bind (effectFn n (queue s ! i) (emit (Job (queue s ! i)) s))
             (\<lambda>_ s1. flush_jobs n (Suc i) s1)
      else Some (Normal VUndef, s))"

definition flush :: "nat \<Rightarrow> state \<Rightarrow> (res \<times> state) option" where
  "flush n s =
     bind (flush_jobs n 0 s) (\<lambda>_ s1. Some (Normal VUndef, s1\<lparr>queue := [], isFlushing := False\<rparr>))"

fun run_microtasks :: "nat \<Rightarrow> state \<Rightarrow> state option" where
  "run_microtasks 0 s = None"
| "run_microtasks (Suc n) s =
     (if microtasks s = 0 then Some s
      else (case flush n (s\<lparr>microtasks := microtasks s - 1\<rparr>) of
              None \<Rightarrow> None
            | Some (r, s1) \<Rightarrow> run_microtasks n s1))"

definition run_task :: "nat \<Rightarrow> prog \<Rightarrow> state \<Rightarrow> state option" where
  "run_task n p s =
     (case exec n p s of None \<Rightarrow> None | Some (r, s1) \<Rightarrow> run_microtasks n s1)"

text \<open>The state when the module has been loaded.\<close>

definition init :: state where
  "init =
     \<lparr>heap = (\<lambda>a. Map.empty), next_proxy = 0,
      effects = (\<lambda>e. \<lparr>fn = Throw, lazy = True, scheduler = None, deps = []\<rparr>),
      n_effects = 0, comp_value = (\<lambda>c. VUndef), comp_dirty = (\<lambda>c. False), n_computeds = 0,
      targetMap = Map.empty, activeEffect = None, effectStack = [], queue = [],
      isFlushing = False, microtasks = 0, log = []\<rparr>"

subsection \<open>What a call returns\<close>

text \<open>
  The relation \<open>returns c s r s'\<close> describes the calls of \<open>run\<close> without the fuel: the
  call \<open>c\<close> started in \<open>s\<close> ends with \<open>r\<close> in \<open>s'\<close>. Every result of \<open>run\<close> is in
  it (\<open>run_returns\<close>), so a property shown by induction on it holds of \<open>run\<close>.
\<close>

inductive returns :: "call \<Rightarrow> state \<Rightarrow> res \<Rightarrow> state \<Rightarrow> bool" where
  Ret: "returns (Exec (Ret v)) s (Normal v) s"
| Throw: "returns (Exec Throw) s Exc s"
| Get: "get_prop x k s = (v, s1) \<Longrightarrow> returns (Exec (f v)) s1 r s' \<Longrightarrow> returns (Exec (Get x k f)) s r s'"
| PutExc: "returns (SetProp x k v) s Exc s' \<Longrightarrow> returns (Exec (Put x k v p)) s Exc s'"
| Put: "returns (SetProp x k v) s (Normal u) s1 \<Longrightarrow> returns (Exec p) s1 r s'
        \<Longrightarrow> returns (Exec (Put x k v p)) s r s'"
| Reactive: "reactive x s = (w, s1) \<Longrightarrow> returns (Exec (f w)) s1 r s'
        \<Longrightarrow> returns (Exec (Reactive x f)) s r s'"
| EffectLazy: "s1 = new_effect (Usr (n_effects s)) g True (map_option UserSched sch) (s\<lparr>n_effects := Suc (n_effects s)\<rparr>)
        \<Longrightarrow> returns (Exec (f (n_effects s))) s1 r s'
        \<Longrightarrow> returns (Exec (Effect g True sch f)) s r s'"
| EffectExc: "s1 = new_effect (Usr (n_effects s)) g False (map_option UserSched sch) (s\<lparr>n_effects := Suc (n_effects s)\<rparr>)
        \<Longrightarrow> returns (EffectFn (Usr (n_effects s))) s1 Exc s'
        \<Longrightarrow> returns (Exec (Effect g False sch f)) s Exc s'"
| Effect: "s1 = new_effect (Usr (n_effects s)) g False (map_option UserSched sch) (s\<lparr>n_effects := Suc (n_effects s)\<rparr>)
        \<Longrightarrow> returns (EffectFn (Usr (n_effects s))) s1 (Normal u) s2
        \<Longrightarrow> returns (Exec (f (n_effects s))) s2 r s'
        \<Longrightarrow> returns (Exec (Effect g False sch f)) s r s'"
| InvokeExc: "returns (EffectFn (Usr i)) s Exc s' \<Longrightarrow> returns (Exec (Invoke i f)) s Exc s'"
| Invoke: "returns (EffectFn (Usr i)) s (Normal v) s1 \<Longrightarrow> returns (Exec (f v)) s1 r s'
        \<Longrightarrow> returns (Exec (Invoke i f)) s r s'"
| Computed: "returns (Exec (f (n_computeds s))) (new_computed g s) r s'
        \<Longrightarrow> returns (Exec (Computed g f)) s r s'"
| ValueNone: "\<not> c < n_computeds s \<Longrightarrow> returns (Exec (Value c f)) s Exc s"
| ValueExc: "c < n_computeds s \<Longrightarrow> returns (ComputedValue c) s Exc s'
        \<Longrightarrow> returns (Exec (Value c f)) s Exc s'"
| Value: "c < n_computeds s \<Longrightarrow> returns (ComputedValue c) s (Normal v) s1
        \<Longrightarrow> returns (Exec (f v)) s1 r s' \<Longrightarrow> returns (Exec (Value c f)) s r s'"
| Try: "returns (Exec p) s r1 s1 \<Longrightarrow> returns (Exec (f r1)) s1 r s'
        \<Longrightarrow> returns (Exec (Try p f)) s r s'"
| EffectFnNone: "\<not> created e s \<Longrightarrow> returns (EffectFn e) s Exc s"
| EffectFnExc: "created e s \<Longrightarrow> s2 = activate e (cleanup e (emit (Run e) s))
        \<Longrightarrow> returns (Exec (fn (effects s2 e))) s2 Exc s3
        \<Longrightarrow> returns (EffectFn e) s Exc (emit (Aborted e) s3)"
| EffectFn: "created e s \<Longrightarrow> s2 = activate e (cleanup e (emit (Run e) s))
        \<Longrightarrow> returns (Exec (fn (effects s2 e))) s2 (Normal v) s3
        \<Longrightarrow> returns (EffectFn e) s (Normal v) (deactivate s3)"
| TriggerNone: "dep_of s t k = [] \<and> (targetMap s t = None \<or> (\<exists>m. targetMap s t = Some m \<and> m k = None))
        \<Longrightarrow> returns (Trigger t k) s (Normal VUndef) (emit (Triggered t k) s)"
| Trigger: "targetMap s t = Some m \<Longrightarrow> m k = Some dep
        \<Longrightarrow> returns (ForEach dep) (emit (Triggered t k) s) r s'
        \<Longrightarrow> returns (Trigger t k) s r s'"
| ForEachNil: "returns (ForEach []) s (Normal VUndef) s"
| ForEachExc: "returns (Dispatch e) s Exc s' \<Longrightarrow> returns (ForEach (e # es)) s Exc s'"
| ForEach: "returns (Dispatch e) s (Normal u) s1 \<Longrightarrow> returns (ForEach es) s1 r s'
        \<Longrightarrow> returns (ForEach (e # es)) s r s'"
| DispatchUser: "scheduler (effects s (Usr i)) = Some (UserSched f)
        \<Longrightarrow> returns (Exec (f i)) (emit (Dispatched (Usr i)) s) r s'
        \<Longrightarrow> returns (Dispatch (Usr i)) s r s'"
| DispatchBad: "scheduler (effects s (Inner c)) = Some (UserSched f)
        \<Longrightarrow> returns (Dispatch (Inner c)) s Exc (emit (Dispatched (Inner c)) s)"
| DispatchComp: "scheduler (effects s e) = Some (CompSched c)
        \<Longrightarrow> returns (Trigger (Cmp c) ''value'') (mark_dirty c (emit (Dispatched e) s)) r s'
        \<Longrightarrow> returns (Dispatch e) s r s'"
| DispatchQueue: "scheduler (effects s e) = None
        \<Longrightarrow> returns (Dispatch e) s (Normal VUndef) (queueJob e (emit (Dispatched e) s))"
| SetRaw: "returns (SetProp (Raw a) k v) s (Normal (VBool True)) (heap_set a k v s)"
| SetExc: "get_prop t k s = (oldValue, s1) \<Longrightarrow> returns (SetProp t k v) s1 Exc s'
        \<Longrightarrow> returns (SetProp (Prx p t) k v) s Exc s'"
| SetSame: "get_prop t k s = (oldValue, s1) \<Longrightarrow> returns (SetProp t k v) s1 (Normal u) s'
        \<Longrightarrow> strict_eq oldValue v \<Longrightarrow> returns (SetProp (Prx p t) k v) s (Normal u) s'"
| SetTrigger: "get_prop t k s = (oldValue, s1) \<Longrightarrow> returns (SetProp t k v) s1 (Normal u) s2
        \<Longrightarrow> \<not> strict_eq oldValue v \<Longrightarrow> returns (Trigger (Obj t) k) s2 r s'
        \<Longrightarrow> returns (SetProp (Prx p t) k v) s (case r of Normal _ \<Rightarrow> Normal u | Exc \<Rightarrow> Exc) s'"
| ValueClean: "\<not> comp_dirty s c \<Longrightarrow> s3 = track (Cmp c) ''value'' (emit (Read c) s)
        \<Longrightarrow> returns (ComputedValue c) s (Normal (comp_value s3 c)) s3"
| ValueDirtyExc: "comp_dirty s c \<Longrightarrow> returns (EffectFn (Inner c)) (emit (Read c) s) Exc s'
        \<Longrightarrow> returns (ComputedValue c) s Exc s'"
| ValueDirty: "comp_dirty s c \<Longrightarrow> returns (EffectFn (Inner c)) (emit (Read c) s) (Normal v) s1
        \<Longrightarrow> s3 = track (Cmp c) ''value'' (cache c v s1)
        \<Longrightarrow> returns (ComputedValue c) s (Normal (comp_value s3 c)) s3"

subsection \<open>Notions for the theorems\<close>

definition since :: "state \<Rightarrow> state \<Rightarrow> event list" where
  "since s s' = take (length (log s') - length (log s)) (log s')"

definition grows :: "state \<Rightarrow> state \<Rightarrow> bool" where
  "grows s s' = (log s' = since s s' @ log s)"

definition top :: "eref list \<Rightarrow> eref option" where
  "top st = (if st = [] then None else Some (last st))"

definition coherent :: "state \<Rightarrow> bool" where
  "coherent s = (activeEffect s = top (effectStack s))"

text \<open>
  \<open>stable0 I\<close>: the updates of the state other than entering and leaving an effect
  keep \<open>I\<close>. \<open>stable I\<close>: so do entering an effect (cleanup and activation), leaving it
  (deactivation) and the failure of its function.
\<close>

definition stable0 :: "(state \<Rightarrow> bool) \<Rightarrow> bool" where
  "stable0 I =
     ((\<forall>s t k. I s \<longrightarrow> I (emit (Triggered t k) s)) \<and>
      (\<forall>s c. I s \<longrightarrow> I (emit (Read c) s)) \<and>
      (\<forall>s e f. I s \<longrightarrow> scheduler (effects s e) = Some (UserSched f) \<longrightarrow> I (emit (Dispatched e) s)) \<and>
      (\<forall>s e c. I s \<longrightarrow> scheduler (effects s e) = Some (CompSched c)
          \<longrightarrow> I (mark_dirty c (emit (Dispatched e) s))) \<and>
      (\<forall>s e. I s \<longrightarrow> scheduler (effects s e) = None \<longrightarrow> I (queueJob e (emit (Dispatched e) s))) \<and>
      (\<forall>s t k. I s \<longrightarrow> I (track t k s)) \<and>
      (\<forall>s x. I s \<longrightarrow> I (snd (reactive x s))) \<and>
      (\<forall>s a k v. I s \<longrightarrow> I (heap_set a k v s)) \<and>
      (\<forall>s g lz sch. I s \<longrightarrow>
          I (new_effect (Usr (n_effects s)) g lz (map_option UserSched sch)
               (s\<lparr>n_effects := Suc (n_effects s)\<rparr>))) \<and>
      (\<forall>s g. I s \<longrightarrow> I (new_computed g s)) \<and>
      (\<forall>s c v. I s \<longrightarrow> I (cache c v s)))"

definition stable :: "(state \<Rightarrow> bool) \<Rightarrow> bool" where
  "stable I =
     (stable0 I \<and>
      (\<forall>s e. I s \<longrightarrow> created e s \<longrightarrow> I (activate e (cleanup e (emit (Run e) s)))) \<and>
      (\<forall>s. I s \<longrightarrow> I (deactivate s)) \<and>
      (\<forall>s e. I s \<longrightarrow> I (emit (Aborted e) s)))"

definition is_Aborted :: "event \<Rightarrow> bool" where
  "is_Aborted ev = (case ev of Aborted e \<Rightarrow> True | _ \<Rightarrow> False)"

definition is_Job :: "event \<Rightarrow> bool" where
  "is_Job ev = (case ev of Job e \<Rightarrow> True | _ \<Rightarrow> False)"

text \<open>
  \<open>balanced (b, st) s\<close>: the stack of \<open>s\<close> extends \<open>st\<close>, and it is \<open>st\<close> if no effect
  function has failed since the log was \<open>b\<close>.
\<close>

definition balanced :: "event list \<times> eref list \<Rightarrow> state \<Rightarrow> bool" where
  "balanced x s =
     (prefix (snd x) (effectStack s) \<and>
      (\<exists>seg. log s = seg @ fst x \<and> (\<not> list_ex is_Aborted seg \<longrightarrow> effectStack s = snd x)))"

definition is_object :: "val \<Rightarrow> bool" where
  "is_object v = (case v of VObj x \<Rightarrow> True | _ \<Rightarrow> False)"


text \<open>The jobs a flush has run, oldest first, in a stretch of the log.\<close>

definition jobs_run :: "event list \<Rightarrow> eref list" where
  "jobs_run seg = rev (concat (map (\<lambda>ev. case ev of Job e \<Rightarrow> [e] | _ \<Rightarrow> []) seg))"



text \<open>The events logged since the latest run of \<open>e\<close> began, newest first.\<close>

definition current_run :: "eref \<Rightarrow> event list \<Rightarrow> event list" where
  "current_run e l = takeWhile (\<lambda>ev. ev \<noteq> Run e) l"

text \<open>
  \<open>graph_exact s\<close>, the invariant of the dependency graph: an effect is in the \<^verbatim>\<open>Set\<close>
  of (target, key) exactly when the pair is in its \<^verbatim>\<open>deps\<close>, which is exactly when the
  pair was tracked for it since its latest run began; no \<^verbatim>\<open>Set\<close> holds an effect
  twice; a handle not yet made has no \<^verbatim>\<open>deps\<close>; the effects on the stack exist and the
  active one is the top of the stack.
\<close>

definition graph_exact :: "state \<Rightarrow> bool" where
  "graph_exact s =
     ((\<forall>e t k. (e \<in> set (dep_of s t k)) = ((t, k) \<in> set (deps (effects s e)))) \<and>
      (\<forall>e t k. ((t, k) \<in> set (deps (effects s e))) = (Tracked e t k \<in> set (current_run e (log s)))) \<and>
      (\<forall>t k. distinct (dep_of s t k)) \<and>
      (\<forall>e. \<not> created e s \<longrightarrow> deps (effects s e) = []) \<and>
      (\<forall>e \<in> set (effectStack s). created e s) \<and>
      coherent s)"

definition is_Triggered :: "event \<Rightarrow> bool" where
  "is_Triggered ev = (case ev of Triggered t k \<Rightarrow> True | _ \<Rightarrow> False)"

text \<open>The effects \<open>trigger\<close> has handled, oldest first, in a stretch of the log.\<close>

definition dispatched :: "event list \<Rightarrow> eref list" where
  "dispatched seg = rev (concat (map (\<lambda>ev. case ev of Dispatched e \<Rightarrow> [e] | _ \<Rightarrow> []) seg))"

text \<open>
  \<open>delivered b D s\<close>: if \<open>trigger\<close> has not been called since the log was \<open>b\<close>, the effects
  handled since then are \<open>D\<close>. \<open>expected c\<close> is what the call \<open>c\<close> itself hands over.
\<close>

definition delivered :: "event list \<Rightarrow> eref list \<Rightarrow> state \<Rightarrow> bool" where
  "delivered b D s =
     (\<exists>seg. log s = seg @ b \<and> (\<not> list_ex is_Triggered seg \<longrightarrow> dispatched seg = D))"

fun expected :: "call \<Rightarrow> eref list" where
  "expected (ForEach es) = es"
| "expected (Dispatch e) = [e]"
| "expected c = []"

text \<open>
  \<open>getter_after_read c l\<close>, for a stretch \<open>l\<close> of the log (newest first): every run of
  the internal effect of the computed \<open>c\<close>, that is of its getter, comes right after a
  read of its \<^verbatim>\<open>.value\<close>.
\<close>

primrec getter_after_read :: "nat \<Rightarrow> event list \<Rightarrow> bool" where
  "getter_after_read c [] = True"
| "getter_after_read c (ev # l) =
     ((ev = Run (Inner c) \<longrightarrow> take 1 l = [Read c]) \<and> getter_after_read c l)"

text \<open>
  \<open>read_driven c b d0 s\<close>: since the log was \<open>b\<close>, when \<open>dirty\<close> was \<open>d0\<close>, the getter of
  \<open>c\<close> has run only right after a read of \<^verbatim>\<open>.value\<close>, and if \<open>dirty\<close> has gone from true
  to false then \<^verbatim>\<open>.value\<close> has been read.
\<close>

definition read_driven :: "nat \<Rightarrow> event list \<Rightarrow> bool \<Rightarrow> state \<Rightarrow> bool" where
  "read_driven c b d0 s =
     (\<exists>seg. log s = seg @ b \<and> getter_after_read c seg \<and>
            (d0 \<and> \<not> comp_dirty s c \<longrightarrow> Read c \<in> set seg))"

text \<open>
  \<open>marked_by_scheduler c b d0 s\<close>: the computed \<open>c\<close> exists, its scheduler belongs to its
  internal effect only, and if \<open>dirty\<close> is true then it was so when the log was \<open>b\<close> (\<open>d0\<close>)
  or \<open>trigger\<close> has handed over the internal effect since.
\<close>

definition marked_by_scheduler :: "nat \<Rightarrow> event list \<Rightarrow> bool \<Rightarrow> state \<Rightarrow> bool" where
  "marked_by_scheduler c b d0 s =
     (c < n_computeds s \<and>
      (\<forall>e. scheduler (effects s e) = Some (CompSched c) \<longrightarrow> e = Inner c) \<and>
      (\<exists>seg. log s = seg @ b \<and> (comp_dirty s c \<longrightarrow> d0 \<or> Dispatched (Inner c) \<in> set seg)))"

text \<open>
  \<open>sched_ok s\<close>: the scheduler of a computed is the scheduler of its internal effect and
  of no other effect. \<open>computeds_ok s\<close>, the invariant of the engine used for computeds:
  the dependency graph is exact, the schedulers are these, and no internal effect is in
  the queue of jobs.
\<close>

definition sched_ok :: "state \<Rightarrow> bool" where
  "sched_ok s =
     ((\<forall>e c. scheduler (effects s e) = Some (CompSched c) \<longrightarrow> e = Inner c \<and> c < n_computeds s) \<and>
      (\<forall>c. c < n_computeds s \<longrightarrow> scheduler (effects s (Inner c)) = Some (CompSched c)))"

definition computeds_ok :: "state \<Rightarrow> bool" where
  "computeds_ok s = (graph_exact s \<and> sched_ok s \<and> (\<forall>c. Inner c \<notin> set (queue s)))"

text \<open>
  The reads of a call, each with the effect whose function made it. The effect whose
  function is running is not a variable of the source: it is the innermost call of an
  \<^verbatim>\<open>effectFn\<close> on the JavaScript call stack, whereas \<^verbatim>\<open>activeEffect\<close> is what \<^verbatim>\<open>track\<close>
  consults. \<open>reads n owner c s\<close> follows \<open>run n c s\<close> and lists, oldest first, the
  (target, key) pairs for which the call \<open>c\<close>, made by code of the function of \<open>owner\<close>
  (\<open>None\<close>: code outside every effect function), calls \<^verbatim>\<open>track\<close>: a read through a
  proxy runs the \<^verbatim>\<open>get\<close> trap of every proxy on the way to the plain object
  (\<open>trapped\<close>), the \<^verbatim>\<open>set\<close> trap reads the old value, and \<^verbatim>\<open>.value\<close> of a computed tracks
  the computed. Inside \<open>EffectFn e\<close> the owner is \<open>e\<close>; a scheduler called by \<open>trigger\<close>
  runs within the function that made the write. Reads made outside every effect
  function are left out.
\<close>

fun trapped :: "obj \<Rightarrow> target list" where
  "trapped (Raw a) = []"
| "trapped (Prx p t) = trapped t @ [Obj t]"

definition by_owner :: "eref option \<Rightarrow> key \<Rightarrow> target list \<Rightarrow> (eref \<times> target \<times> key) list" where
  "by_owner owner k ts = (case owner of None \<Rightarrow> [] | Some e \<Rightarrow> map (\<lambda>t. (e, t, k)) ts)"

definition and_then :: "(res \<times> state) option \<Rightarrow> (val \<Rightarrow> state \<Rightarrow> 'a list) \<Rightarrow> 'a list" where
  "and_then m f = (case m of Some (Normal v, s) \<Rightarrow> f v s | _ \<Rightarrow> [])"

primrec reads :: "nat \<Rightarrow> eref option \<Rightarrow> call \<Rightarrow> state \<Rightarrow> (eref \<times> target \<times> key) list" where
  "reads 0 owner c s = []"
| "reads (Suc n) owner c s =
   (case c of
      Exec (Ret v) \<Rightarrow> []
    | Exec Throw \<Rightarrow> []
    | Exec (Get x k f) \<Rightarrow>
       (case get_prop x k s of (v, s1) \<Rightarrow> by_owner owner k (trapped x) @ reads n owner (Exec (f v)) s1)
    | Exec (Put x k v p) \<Rightarrow>
       reads n owner (SetProp x k v) s
       @ and_then (run n (SetProp x k v) s) (\<lambda>_ s1. reads n owner (Exec p) s1)
    | Exec (Reactive x f) \<Rightarrow> (case reactive x s of (w, s1) \<Rightarrow> reads n owner (Exec (f w)) s1)
    | Exec (Effect g lz sch f) \<Rightarrow>
       (let i = n_effects s;
            s1 = new_effect (Usr i) g lz (map_option UserSched sch) (s\<lparr>n_effects := Suc i\<rparr>)
        in if \<not> lz
           then reads n owner (EffectFn (Usr i)) s1
                @ and_then (run n (EffectFn (Usr i)) s1) (\<lambda>_ s2. reads n owner (Exec (f i)) s2)
           else reads n owner (Exec (f i)) s1)
    | Exec (Invoke i f) \<Rightarrow>
       reads n owner (EffectFn (Usr i)) s
       @ and_then (run n (EffectFn (Usr i)) s) (\<lambda>v s1. reads n owner (Exec (f v)) s1)
    | Exec (Computed g f) \<Rightarrow> reads n owner (Exec (f (n_computeds s))) (new_computed g s)
    | Exec (Value c f) \<Rightarrow>
       (if c < n_computeds s
        then reads n owner (ComputedValue c) s
             @ and_then (run n (ComputedValue c) s) (\<lambda>v s1. reads n owner (Exec (f v)) s1)
        else [])
    | Exec (Try p f) \<Rightarrow>
       reads n owner (Exec p) s
       @ (case run n (Exec p) s of None \<Rightarrow> [] | Some (r, s1) \<Rightarrow> reads n owner (Exec (f r)) s1)
    | EffectFn e \<Rightarrow>
       (if \<not> created e s then []
        else
          (let s2 = activate e (cleanup e (emit (Run e) s))
           in reads n (Some e) (Exec (fn (effects s2 e))) s2))
    | Trigger t k \<Rightarrow>
       (let s0 = emit (Triggered t k) s
        in case targetMap s0 t of
             None \<Rightarrow> []
           | Some depsMap \<Rightarrow>
               (case depsMap k of None \<Rightarrow> [] | Some dep \<Rightarrow> reads n owner (ForEach dep) s0))
    | ForEach [] \<Rightarrow> []
    | ForEach (e # es) \<Rightarrow>
       reads n owner (Dispatch e) s
       @ and_then (run n (Dispatch e) s) (\<lambda>_ s1. reads n owner (ForEach es) s1)
    | Dispatch e \<Rightarrow>
       (let s0 = emit (Dispatched e) s
        in case scheduler (effects s0 e) of
             Some (UserSched f) \<Rightarrow>
               (case e of Usr i \<Rightarrow> reads n owner (Exec (f i)) s0 | Inner c \<Rightarrow> [])
           | Some (CompSched c) \<Rightarrow> reads n owner (Trigger (Cmp c) ''value'') (mark_dirty c s0)
           | None \<Rightarrow> [])
    | SetProp (Raw a) k v \<Rightarrow> []
    | SetProp (Prx p t) k v \<Rightarrow>
       (case get_prop t k s of
          (oldValue, s1) \<Rightarrow>
            by_owner owner k (trapped t)
            @ reads n owner (SetProp t k v) s1
            @ and_then (run n (SetProp t k v) s1)
                (\<lambda>_ s2. if \<not> strict_eq oldValue v then reads n owner (Trigger (Obj t) k) s2 else []))
    | ComputedValue c \<Rightarrow>
       (let s0 = emit (Read c) s
        in if comp_dirty s0 c
           then reads n owner (EffectFn (Inner c)) s0
                @ and_then (run n (EffectFn (Inner c)) s0) (\<lambda>_ s1. by_owner owner ''value'' [Cmp c])
           else by_owner owner ''value'' [Cmp c]))"

text \<open>The \<^verbatim>\<open>track\<close> calls that registered an effect, oldest first, in a stretch of the log.\<close>

definition tracked :: "event list \<Rightarrow> (eref \<times> target \<times> key) list" where
  "tracked seg = rev (concat (map (\<lambda>ev. case ev of Tracked e t k \<Rightarrow> [(e, t, k)] | _ \<Rightarrow> []) seg))"

text \<open>
  \<open>attributed owner st b R s\<close>: if no effect function has failed since the log was \<open>b\<close>,
  then the \<^verbatim>\<open>track\<close> calls registered since are \<open>R\<close>, the active effect is \<open>owner\<close> and
  the stack is \<open>st\<close>, whose top is \<open>owner\<close>.
\<close>

definition attributed ::
  "eref option \<Rightarrow> eref list \<Rightarrow> event list \<Rightarrow> (eref \<times> target \<times> key) list \<Rightarrow> state \<Rightarrow> bool"
where
  "attributed owner st b R s =
     (top st = owner \<and>
      (\<exists>seg. log s = seg @ b \<and>
         (\<not> list_ex is_Aborted seg \<longrightarrow>
            tracked seg = R \<and> activeEffect s = owner \<and> effectStack s = st)))"

text \<open>\<^verbatim>\<open>target[key]\<close> for the plain object at address \<open>a\<close>.\<close>

definition stored :: "state \<Rightarrow> nat \<Rightarrow> key \<Rightarrow> val" where
  "stored s a k = (case heap s a k of None \<Rightarrow> VUndef | Some u \<Rightarrow> u)"





subsection \<open>Scenarios\<close>

text \<open>Concrete scripts and states on which the theorems are exercised.\<close>

definition c4_first :: prog where
  "c4_first =
     Put (Raw 0) ''k'' (VNum 0)
       (Reactive (Raw 0) (\<lambda>w.
          Effect (Get w ''k'' (\<lambda>v. if v = VNum 1 then Throw else Ret VUndef)) False None (\<lambda>e0.
          Effect (Get w ''k'' (\<lambda>v. Put (Raw 1) ''seen'' v (Ret VUndef))) False None (\<lambda>e1.
          Put w ''k'' (VNum 1) (Ret VUndef)))))"

definition c4_second :: prog where
  "c4_second = Put (Prx 0 (Raw 0)) ''k'' (VNum 2) (Ret VUndef)"

definition c4_end :: state where
  "c4_end = the (Option.bind (run_task 30 c4_first init) (run_task 30 c4_second))"

definition c4_pending :: state where
  "c4_pending = (let s = snd (the (exec 30 c4_first init)) in s\<lparr>microtasks := microtasks s - 1\<rparr>)"

definition c4_failed :: state where
  "c4_failed = snd (the (flush 29 c4_pending))"

definition c4_after :: state where
  "c4_after = the (run_task 30 c4_second c4_failed)"

definition c3_script :: prog where
  "c3_script = Effect Throw True None (\<lambda>e. Ret VUndef)"

definition c3_state :: state where
  "c3_state = snd (the (exec 5 c3_script init))"

definition c3_after :: state where
  "c3_after = snd (the (effectFn 5 (Usr 0) c3_state))"

definition c7_script :: prog where
  "c7_script =
     Reactive (Raw 0) (\<lambda>w.
       Effect Throw True None (\<lambda>failing.
       Effect (Try (Invoke failing Ret) (\<lambda>r. Ret VUndef)) True None (\<lambda>inner.
       Effect (Invoke inner (\<lambda>v. Get w ''a'' Ret)) False None (\<lambda>outer. Ret VUndef))))"

definition c3_ok_script :: prog where
  "c3_ok_script = Effect (Ret (VNum 1)) True None (\<lambda>e. Ret VUndef)"

definition c3_ok_state :: state where
  "c3_ok_state = snd (the (exec 5 c3_ok_script init))"

definition c3_ok_after :: state where
  "c3_ok_after = snd (the (effectFn 5 (Usr 0) c3_ok_state))"

definition c7_end :: state where
  "c7_end = snd (the (exec 20 c7_script init))"

















definition c1_script :: prog where
  "c1_script =
     Put (Raw 0) ''flag'' (VBool True)
       (Put (Raw 0) ''a'' (VNum 1)
          (Put (Raw 0) ''b'' (VNum 2)
             (Reactive (Raw 0) (\<lambda>w.
                Effect (Get w ''flag'' (\<lambda>f. if f = VBool True then Get w ''a'' Ret else Get w ''b'' Ret))
                  False None
                  (\<lambda>e. Put (Raw 0) ''flag'' (VBool False) (Ret VUndef))))))"

definition c1_state :: state where
  "c1_state = snd (the (exec 20 c1_script init))"

definition c1_rerun :: state where
  "c1_rerun = snd (the (effectFn 10 (Usr 0) c1_state))"

definition c1_trigger_a :: state where
  "c1_trigger_a = snd (the (trigger 5 (Obj (Raw 0)) ''a'' c1_rerun))"

definition c1_trigger_b :: state where
  "c1_trigger_b = snd (the (trigger 5 (Obj (Raw 0)) ''b'' c1_rerun))"




text \<open>
  A computed of \<^verbatim>\<open>w.a\<close> and an effect reading it; then a write to \<^verbatim>\<open>w.a\<close> and the
  microtasks after it.
\<close>

definition c5_setup :: prog where
  "c5_setup =
     Put (Raw 0) ''a'' (VNum 1)
       (Reactive (Raw 0) (\<lambda>w.
          Computed (Get w ''a'' Ret) (\<lambda>c.
          Effect (Value c Ret) False None (\<lambda>e. Ret VUndef))))"

definition c5_write :: prog where
  "c5_write = Put (Prx 0 (Raw 0)) ''a'' (VNum 2) (Ret VUndef)"

definition c5_state :: state where
  "c5_state = snd (the (exec 20 c5_setup init))"

definition c5_written :: state where
  "c5_written = snd (the (exec 20 c5_write c5_state))"

definition c5_end :: state where
  "c5_end = the (run_microtasks 20 c5_written)"

text \<open>
  An effect that throws, an effect that calls it in a \<^verbatim>\<open>try\<close> block, and an outer effect
  that calls the second and then reads \<^verbatim>\<open>a\<close>; all lazy, so that the run of the outer
  effect is a call of its handle.
\<close>

definition c1_stale_script :: prog where
  "c1_stale_script =
     Reactive (Raw 0) (\<lambda>w.
       Effect Throw True None (\<lambda>failing.
       Effect (Try (Invoke failing Ret) (\<lambda>r. Ret VUndef)) True None (\<lambda>inner.
       Effect (Invoke inner (\<lambda>v. Get w ''a'' Ret)) True None (\<lambda>outer. Ret VUndef))))"

definition c1_stale_state :: state where
  "c1_stale_state = snd (the (exec 20 c1_stale_script init))"

definition c1_stale_end :: state where
  "c1_stale_end = snd (the (effectFn 20 (Usr 2) c1_stale_state))"

text \<open>
  An effect that reads \<^verbatim>\<open>a\<close> and calls its own handle once (the flag \<^verbatim>\<open>again\<close> of a plain
  object stops the recursion); the inner run reads \<^verbatim>\<open>b\<close>.
\<close>

definition c1_again_script :: prog where
  "c1_again_script =
     Put (Raw 1) ''again'' (VBool True)
       (Reactive (Raw 0) (\<lambda>w.
          Effect
            (Get (Raw 1) ''again'' (\<lambda>g.
               if g = VBool True
               then Get w ''a'' (\<lambda>v. Put (Raw 1) ''again'' (VBool False) (Invoke 0 Ret))
               else Get w ''b'' Ret))
            True None (\<lambda>e. Ret VUndef)))"

definition c1_again_state :: state where
  "c1_again_state = snd (the (exec 20 c1_again_script init))"

definition c1_again_end :: state where
  "c1_again_end = snd (the (effectFn 20 (Usr 0) c1_again_state))"

text \<open>
  Three lazy effects: the first does nothing, the second calls the first and then reads
  \<^verbatim>\<open>a\<close>. \<open>c7_called\<close> is a state in which the third is the active effect, on top of the
  stack, as when its function calls the handle of the second.
\<close>

definition c7_chain :: prog where
  "c7_chain =
     Reactive (Raw 0) (\<lambda>w.
       Effect (Ret VUndef) True None (\<lambda>inner.
       Effect (Invoke inner (\<lambda>u. Get w ''a'' Ret)) True None (\<lambda>middle.
       Effect (Ret VUndef) True None (\<lambda>outer. Ret VUndef))))"

definition c7_called :: state where
  "c7_called = activate (Usr 2) (snd (the (exec 10 c7_chain init)))"

definition c7_returned :: state where
  "c7_returned = snd (the (effectFn 6 (Usr 1) c7_called))"

definition c1_stale_triggered :: state where
  "c1_stale_triggered = snd (the (trigger 5 (Obj (Raw 0)) ''a'' c1_stale_end))"



















section \<open>Basic facts\<close>

lemma bind_simps [simp]:
  "bind None f = None"
  "bind (Some (Exc, s)) f = Some (Exc, s)"
  "bind (Some (Normal v, s)) f = f v s"
  by (simp_all add: bind_def)

lemma bind_SomeE:
  assumes "bind m f = Some (r, s')"
  obtains "m = Some (Exc, s')" "r = Exc"
  | v s1 where "m = Some (Normal v, s1)" "f v s1 = Some (r, s')"
  using assms by (auto simp: bind_def split: option.splits res.splits)

lemma emit_simps [simp]: "comp_dirty (emit ev s) = comp_dirty s" "effects (emit ev s) = effects s"
  "targetMap (emit ev s) = targetMap s"
  by (simp_all add: emit_def)

lemmas returns_intros = returns.Ret returns.Throw returns.Get returns.PutExc returns.Put
  returns.Reactive returns.EffectLazy[OF refl] returns.EffectExc[OF refl] returns.Effect[OF refl]
  returns.InvokeExc returns.Invoke returns.Computed returns.ValueNone returns.ValueExc
  returns.Value returns.Try returns.EffectFnNone returns.EffectFnExc[OF _ refl]
  returns.EffectFn[OF _ refl] returns.TriggerNone returns.Trigger returns.ForEachNil
  returns.ForEachExc returns.ForEach returns.DispatchUser returns.DispatchBad
  returns.DispatchComp returns.DispatchQueue returns.SetRaw returns.SetExc returns.SetSame
  returns.SetTrigger returns.ValueClean[OF _ refl] returns.ValueDirtyExc
  returns.ValueDirty[OF _ _ refl]

lemma run_returns: "run n c s = Some (r, s') \<Longrightarrow> returns c s r s'"
proof (induction n arbitrary: c s r s')
  case 0
  then show ?case by simp
next
  case (Suc n)
  note IH = Suc.IH
  show ?case
  proof (cases c)
    case (Exec p)
    show ?thesis
    proof (cases p)
      case (Ret v) with Exec Suc.prems show ?thesis by (auto intro: returns_intros)
    next
      case Throw with Exec Suc.prems show ?thesis by (auto intro: returns_intros)
    next
      case (Get x k f) with Exec Suc.prems show ?thesis
        by (auto intro: returns_intros dest!: IH split: prod.splits)
    next
      case (Put x k v q) with Exec Suc.prems show ?thesis
        by (auto intro: returns_intros dest!: IH elim!: bind_SomeE)
    next
      case (Reactive x f) with Exec Suc.prems show ?thesis
        by (auto intro: returns_intros dest!: IH split: prod.splits)
    next
      case (Effect g lz sch f) with Exec Suc.prems show ?thesis
        by (auto simp: Let_def intro: returns_intros dest!: IH elim!: bind_SomeE split: if_splits)
    next
      case (Invoke i f) with Exec Suc.prems show ?thesis
        by (auto intro: returns_intros dest!: IH elim!: bind_SomeE)
    next
      case (Computed g f) with Exec Suc.prems show ?thesis
        by (auto intro: returns_intros dest!: IH)
    next
      case (Value x f) with Exec Suc.prems show ?thesis
        by (auto intro: returns_intros dest!: IH elim!: bind_SomeE split: if_splits)
    next
      case (Try q f) with Exec Suc.prems show ?thesis
        by (auto intro: returns_intros dest!: IH split: option.splits)
    qed
  next
    case (EffectFn e) with Suc.prems show ?thesis
      by (auto simp: Let_def intro: returns_intros dest!: IH split: if_splits option.splits res.splits)
  next
    case (Trigger t k) with Suc.prems show ?thesis
      by (auto simp: Let_def dep_of_def intro: returns_intros dest!: IH split: option.splits)
  next
    case (ForEach es) with Suc.prems show ?thesis
      by (cases es) (auto intro: returns_intros dest!: IH elim!: bind_SomeE)
  next
    case (Dispatch e) with Suc.prems show ?thesis
      by (auto simp: Let_def intro: returns_intros dest!: IH split: option.splits sched.splits eref.splits)
  next
    case (SetProp x k v)
    show ?thesis
    proof (cases x)
      case (Raw a) with SetProp Suc.prems show ?thesis by (auto intro: returns_intros)
    next
      case (Prx p t)
      obtain oldValue s1 where g: "get_prop t k s = (oldValue, s1)" by (cases "get_prop t k s")
      with Prx SetProp Suc.prems show ?thesis
        by (auto elim!: bind_SomeE split: if_splits intro: returns_intros
            returns.SetTrigger[where r = "Normal u" for u, simplified]
            returns.SetTrigger[where r = Exc, simplified] dest!: IH)
    qed
  next
    case (ComputedValue c) with Suc.prems show ?thesis
      by (auto simp: Let_def intro: returns_intros dest!: IH elim!: bind_SomeE split: if_splits)
  qed
qed


lemma grows_since: "log s' = seg @ log s \<Longrightarrow> since s s' = seg"
  by (simp add: since_def)

lemma grows_refl [simp]: "grows s s"
  by (simp add: grows_def since_def)

lemma since_refl [simp]: "since s s = []"
  by (simp add: since_def)




lemma since_same_log2: "log s1 = log s' \<Longrightarrow> since s s1 = since s s'"
  by (simp add: since_def)

lemma grows_same_log: "log s1 = log s \<Longrightarrow> grows s1 s' = grows s s'"
  by (simp add: grows_def since_def)

lemma grows_same_log2: "log s1 = log s' \<Longrightarrow> grows s s1 = grows s s'"
  by (simp add: grows_def since_def)

text \<open>What each state update leaves alone.\<close>

lemma emit_fields [simp]:
  "heap (emit ev s) = heap s" "next_proxy (emit ev s) = next_proxy s"
  "n_effects (emit ev s) = n_effects s" "comp_value (emit ev s) = comp_value s"
  "n_computeds (emit ev s) = n_computeds s"
  "activeEffect (emit ev s) = activeEffect s" "effectStack (emit ev s) = effectStack s"
  "queue (emit ev s) = queue s" "isFlushing (emit ev s) = isFlushing s"
  "microtasks (emit ev s) = microtasks s" "log (emit ev s) = ev # log s"
  by (simp_all add: emit_def)

lemma dep_delete_shape: "\<exists>tm. dep_delete e d s = s\<lparr>targetMap := tm\<rparr>"
  by (auto simp: dep_delete_def split: option.splits intro: exI[of _ "targetMap s"])

lemma fold_dep_delete_shape: "\<exists>tm. fold (dep_delete e) ds s = s\<lparr>targetMap := tm\<rparr>"
proof (induction ds arbitrary: s)
  case Nil
  show ?case by (auto intro: exI[of _ "targetMap s"])
next
  case (Cons d ds)
  obtain tm where 1: "dep_delete e d s = s\<lparr>targetMap := tm\<rparr>"
    using dep_delete_shape by blast
  obtain tm' where 2: "fold (dep_delete e) ds (s\<lparr>targetMap := tm\<rparr>) = s\<lparr>targetMap := tm, targetMap := tm'\<rparr>"
    using Cons.IH by blast
  show ?case using 1 2 by auto
qed

lemma cleanup_shape:
  "\<exists>tm. cleanup e s = s\<lparr>targetMap := tm, effects := (effects s)(e := (effects s e)\<lparr>deps := []\<rparr>)\<rparr>"
proof -
  obtain tm where "fold (dep_delete e) (deps (effects s e)) s = s\<lparr>targetMap := tm\<rparr>"
    using fold_dep_delete_shape by blast
  then show ?thesis by (auto simp: cleanup_def Let_def)
qed

lemma cleanup_fields [simp]:
  "heap (cleanup e s) = heap s" "next_proxy (cleanup e s) = next_proxy s"
  "n_effects (cleanup e s) = n_effects s" "comp_value (cleanup e s) = comp_value s"
  "comp_dirty (cleanup e s) = comp_dirty s" "n_computeds (cleanup e s) = n_computeds s"
  "activeEffect (cleanup e s) = activeEffect s" "effectStack (cleanup e s) = effectStack s"
  "queue (cleanup e s) = queue s" "isFlushing (cleanup e s) = isFlushing s"
  "microtasks (cleanup e s) = microtasks s" "log (cleanup e s) = log s"
  "effects (cleanup e s) = (effects s)(e := (effects s e)\<lparr>deps := []\<rparr>)"
  using cleanup_shape[of e s] by auto

lemma activate_fields [simp]:
  "heap (activate e s) = heap s" "next_proxy (activate e s) = next_proxy s"
  "n_effects (activate e s) = n_effects s" "comp_value (activate e s) = comp_value s"
  "comp_dirty (activate e s) = comp_dirty s" "n_computeds (activate e s) = n_computeds s"
  "activeEffect (activate e s) = Some e" "effectStack (activate e s) = effectStack s @ [e]"
  "queue (activate e s) = queue s" "isFlushing (activate e s) = isFlushing s"
  "microtasks (activate e s) = microtasks s" "log (activate e s) = log s"
  "effects (activate e s) = effects s" "targetMap (activate e s) = targetMap s"
  by (simp_all add: activate_def)

lemma deactivate_fields [simp]:
  "heap (deactivate s) = heap s" "next_proxy (deactivate s) = next_proxy s"
  "n_effects (deactivate s) = n_effects s" "comp_value (deactivate s) = comp_value s"
  "comp_dirty (deactivate s) = comp_dirty s" "n_computeds (deactivate s) = n_computeds s"
  "activeEffect (deactivate s) = top (butlast (effectStack s))"
  "effectStack (deactivate s) = butlast (effectStack s)"
  "queue (deactivate s) = queue s" "isFlushing (deactivate s) = isFlushing s"
  "microtasks (deactivate s) = microtasks s" "log (deactivate s) = log s"
  "effects (deactivate s) = effects s" "targetMap (deactivate s) = targetMap s"
  by (simp_all add: deactivate_def Let_def top_def)

lemma track_fields [simp]:
  "heap (track t k s) = heap s" "next_proxy (track t k s) = next_proxy s"
  "n_effects (track t k s) = n_effects s" "comp_value (track t k s) = comp_value s"
  "comp_dirty (track t k s) = comp_dirty s" "n_computeds (track t k s) = n_computeds s"
  "activeEffect (track t k s) = activeEffect s" "effectStack (track t k s) = effectStack s"
  "queue (track t k s) = queue s" "isFlushing (track t k s) = isFlushing s"
  "microtasks (track t k s) = microtasks s"
  by (simp_all add: track_def Let_def split: option.splits)

lemma track_log:
  "log (track t k s) = (case activeEffect s of None \<Rightarrow> log s | Some e \<Rightarrow> Tracked e t k # log s)"
  by (simp add: track_def Let_def split: option.splits)

lemma queueJob_fields [simp]:
  "heap (queueJob e s) = heap s" "next_proxy (queueJob e s) = next_proxy s"
  "n_effects (queueJob e s) = n_effects s" "comp_value (queueJob e s) = comp_value s"
  "comp_dirty (queueJob e s) = comp_dirty s" "n_computeds (queueJob e s) = n_computeds s"
  "activeEffect (queueJob e s) = activeEffect s" "effectStack (queueJob e s) = effectStack s"
  "queue (queueJob e s) = set_add e (queue s)" "isFlushing (queueJob e s) = True"
  "microtasks (queueJob e s) = (if isFlushing s then microtasks s else Suc (microtasks s))"
  "log (queueJob e s) = log s"
  "effects (queueJob e s) = effects s" "targetMap (queueJob e s) = targetMap s"
  by (simp_all add: queueJob_def Let_def)

lemma reactive_fields [simp]:
  "heap (snd (reactive x s)) = heap s" "next_proxy (snd (reactive x s)) = Suc (next_proxy s)"
  "n_effects (snd (reactive x s)) = n_effects s" "comp_value (snd (reactive x s)) = comp_value s"
  "comp_dirty (snd (reactive x s)) = comp_dirty s" "n_computeds (snd (reactive x s)) = n_computeds s"
  "activeEffect (snd (reactive x s)) = activeEffect s" "effectStack (snd (reactive x s)) = effectStack s"
  "queue (snd (reactive x s)) = queue s" "isFlushing (snd (reactive x s)) = isFlushing s"
  "microtasks (snd (reactive x s)) = microtasks s" "log (snd (reactive x s)) = log s"
  "effects (snd (reactive x s)) = effects s" "targetMap (snd (reactive x s)) = targetMap s"
  "fst (reactive x s) = Prx (next_proxy s) x"
  by (simp_all add: reactive_def)

lemma new_effect_fields [simp]:
  "heap (new_effect e g lz sch s) = heap s" "next_proxy (new_effect e g lz sch s) = next_proxy s"
  "n_effects (new_effect e g lz sch s) = n_effects s" "comp_value (new_effect e g lz sch s) = comp_value s"
  "comp_dirty (new_effect e g lz sch s) = comp_dirty s" "n_computeds (new_effect e g lz sch s) = n_computeds s"
  "activeEffect (new_effect e g lz sch s) = activeEffect s" "effectStack (new_effect e g lz sch s) = effectStack s"
  "queue (new_effect e g lz sch s) = queue s" "isFlushing (new_effect e g lz sch s) = isFlushing s"
  "microtasks (new_effect e g lz sch s) = microtasks s" "log (new_effect e g lz sch s) = log s"
  "targetMap (new_effect e g lz sch s) = targetMap s"
  "effects (new_effect e g lz sch s) = (effects s)(e := \<lparr>fn = g, lazy = lz, scheduler = sch, deps = []\<rparr>)"
  by (simp_all add: new_effect_def)

lemma new_computed_fields [simp]:
  "heap (new_computed g s) = heap s" "next_proxy (new_computed g s) = next_proxy s"
  "n_effects (new_computed g s) = n_effects s"
  "comp_value (new_computed g s) = (comp_value s)(n_computeds s := VUndef)"
  "comp_dirty (new_computed g s) = (comp_dirty s)(n_computeds s := True)"
  "n_computeds (new_computed g s) = Suc (n_computeds s)"
  "activeEffect (new_computed g s) = activeEffect s" "effectStack (new_computed g s) = effectStack s"
  "queue (new_computed g s) = queue s" "isFlushing (new_computed g s) = isFlushing s"
  "microtasks (new_computed g s) = microtasks s" "log (new_computed g s) = log s"
  "targetMap (new_computed g s) = targetMap s"
  "effects (new_computed g s) =
     (effects s)(Inner (n_computeds s) :=
        \<lparr>fn = g, lazy = True, scheduler = Some (CompSched (n_computeds s)), deps = []\<rparr>)"
  by (simp_all add: new_computed_def Let_def)

lemma heap_set_fields [simp]:
  "next_proxy (heap_set a k v s) = next_proxy s"
  "n_effects (heap_set a k v s) = n_effects s" "comp_value (heap_set a k v s) = comp_value s"
  "comp_dirty (heap_set a k v s) = comp_dirty s" "n_computeds (heap_set a k v s) = n_computeds s"
  "activeEffect (heap_set a k v s) = activeEffect s" "effectStack (heap_set a k v s) = effectStack s"
  "queue (heap_set a k v s) = queue s" "isFlushing (heap_set a k v s) = isFlushing s"
  "microtasks (heap_set a k v s) = microtasks s" "log (heap_set a k v s) = log s"
  "effects (heap_set a k v s) = effects s" "targetMap (heap_set a k v s) = targetMap s"
  "heap (heap_set a k v s) = (heap s)(a := (heap s a)(k \<mapsto> v))"
  by (simp_all add: heap_set_def)

lemma mark_dirty_fields [simp]:
  "heap (mark_dirty c s) = heap s" "next_proxy (mark_dirty c s) = next_proxy s"
  "n_effects (mark_dirty c s) = n_effects s" "comp_value (mark_dirty c s) = comp_value s"
  "comp_dirty (mark_dirty c s) = (comp_dirty s)(c := True)" "n_computeds (mark_dirty c s) = n_computeds s"
  "activeEffect (mark_dirty c s) = activeEffect s" "effectStack (mark_dirty c s) = effectStack s"
  "queue (mark_dirty c s) = queue s" "isFlushing (mark_dirty c s) = isFlushing s"
  "microtasks (mark_dirty c s) = microtasks s" "log (mark_dirty c s) = log s"
  "effects (mark_dirty c s) = effects s" "targetMap (mark_dirty c s) = targetMap s"
  by (simp_all add: mark_dirty_def)

lemma cache_fields [simp]:
  "heap (cache c v s) = heap s" "next_proxy (cache c v s) = next_proxy s"
  "n_effects (cache c v s) = n_effects s" "comp_value (cache c v s) = (comp_value s)(c := v)"
  "comp_dirty (cache c v s) = (comp_dirty s)(c := False)" "n_computeds (cache c v s) = n_computeds s"
  "activeEffect (cache c v s) = activeEffect s" "effectStack (cache c v s) = effectStack s"
  "queue (cache c v s) = queue s" "isFlushing (cache c v s) = isFlushing s"
  "microtasks (cache c v s) = microtasks s" "log (cache c v s) = log s"
  "effects (cache c v s) = effects s" "targetMap (cache c v s) = targetMap s"
  by (simp_all add: cache_def)

lemma created_simps [simp]:
  "created e (emit ev s) = created e s" "created e (cleanup e' s) = created e s"
  "created e (activate e' s) = created e s" "created e (deactivate s) = created e s"
  "created e (track t k s) = created e s" "created e (queueJob e' s) = created e s"
  "created e (snd (reactive x s)) = created e s" "created e (heap_set a k v s) = created e s"
  "created e (mark_dirty c s) = created e s" "created e (cache c v s) = created e s"
  by (cases e; simp)+

lemma deep_VObj: "deep (VObj x) s = (VObj (Prx (next_proxy s) x), snd (reactive x s))"
  by (simp add: deep_def reactive_def)

lemma deep_other: "(\<And>x. v \<noteq> VObj x) \<Longrightarrow> deep v s = (v, s)"
  by (cases v) (auto simp: deep_def)

lemma deep_cases:
  obtains x where "v = VObj x" "deep v s = (VObj (Prx (next_proxy s) x), snd (reactive x s))"
  | "\<And>x. v \<noteq> VObj x" "deep v s = (v, s)"
  by (cases v) (simp_all add: deep_VObj deep_other)

lemma deep_fields [simp]:
  "heap (snd (deep v s)) = heap s"
  "n_effects (snd (deep v s)) = n_effects s" "comp_value (snd (deep v s)) = comp_value s"
  "comp_dirty (snd (deep v s)) = comp_dirty s" "n_computeds (snd (deep v s)) = n_computeds s"
  "activeEffect (snd (deep v s)) = activeEffect s" "effectStack (snd (deep v s)) = effectStack s"
  "queue (snd (deep v s)) = queue s" "isFlushing (snd (deep v s)) = isFlushing s"
  "microtasks (snd (deep v s)) = microtasks s" "log (snd (deep v s)) = log s"
  "effects (snd (deep v s)) = effects s" "targetMap (snd (deep v s)) = targetMap s"
  by (rule deep_cases[of v s]; simp)+

lemma get_prop_Prx: "snd (get_prop (Prx p t) k s) = snd (deep (fst (get_prop t k s)) (track (Obj t) k (snd (get_prop t k s))))"
  by (simp add: case_prod_beta)


lemma get_prop_n_effects [simp]: "n_effects (snd (get_prop x k s)) = n_effects s"
  by (induction x arbitrary: s) (simp_all add: case_prod_beta)

lemma get_prop_comp_value [simp]: "comp_value (snd (get_prop x k s)) = comp_value s"
  by (induction x arbitrary: s) (simp_all add: case_prod_beta)

lemma get_prop_comp_dirty [simp]: "comp_dirty (snd (get_prop x k s)) = comp_dirty s"
  by (induction x arbitrary: s) (simp_all add: case_prod_beta)

lemma get_prop_n_computeds [simp]: "n_computeds (snd (get_prop x k s)) = n_computeds s"
  by (induction x arbitrary: s) (simp_all add: case_prod_beta)

lemma get_prop_activeEffect [simp]: "activeEffect (snd (get_prop x k s)) = activeEffect s"
  by (induction x arbitrary: s) (simp_all add: case_prod_beta)

lemma get_prop_effectStack [simp]: "effectStack (snd (get_prop x k s)) = effectStack s"
  by (induction x arbitrary: s) (simp_all add: case_prod_beta)

lemma get_prop_queue [simp]: "queue (snd (get_prop x k s)) = queue s"
  by (induction x arbitrary: s) (simp_all add: case_prod_beta)

lemma get_prop_isFlushing [simp]: "isFlushing (snd (get_prop x k s)) = isFlushing s"
  by (induction x arbitrary: s) (simp_all add: case_prod_beta)

lemma get_prop_microtasks [simp]: "microtasks (snd (get_prop x k s)) = microtasks s"
  by (induction x arbitrary: s) (simp_all add: case_prod_beta)

lemma get_prop_created [simp]: "created e (snd (get_prop x k s)) = created e s"
  by (cases e; simp)

lemma stable_deep: "stable0 I \<Longrightarrow> I s \<Longrightarrow> I (snd (deep v s))"
  by (rule deep_cases[of v s]) (simp_all add: stable0_def)

lemma stable_get_prop: "stable0 I \<Longrightarrow> I s \<Longrightarrow> I (snd (get_prop x k s))"
proof (induction x arbitrary: s)
  case (Raw a)
  then show ?case by simp
next
  case (Prx p t)
  have 1: "I (snd (get_prop t k s))" using Prx by blast
  have 2: "I (track (Obj t) k (snd (get_prop t k s)))" using Prx.prems(1) 1 by (simp add: stable0_def)
  show ?case unfolding get_prop_Prx by (rule stable_deep[OF Prx.prems(1) 2])
qed

lemma stableD:
  assumes "stable0 I" "I s"
  shows "I (emit (Triggered t k) s)" "I (emit (Read c) s)"
    "scheduler (effects s e) = Some (UserSched f) \<Longrightarrow> I (emit (Dispatched e) s)"
    "scheduler (effects s e) = Some (CompSched c) \<Longrightarrow> I (mark_dirty c (emit (Dispatched e) s))"
    "scheduler (effects s e) = None \<Longrightarrow> I (queueJob e (emit (Dispatched e) s))"
    "I (track t k s)" "I (snd (reactive x s))" "I (heap_set a k v s)"
    "I (new_effect (Usr (n_effects s)) g lz (map_option UserSched sch) (s\<lparr>n_effects := Suc (n_effects s)\<rparr>))"
    "I (new_computed g s)" "I (cache c v s)"
  using assms unfolding stable0_def by simp_all

text \<open>
  Induction over a call for a family of invariants \<open>I x\<close>: entering an effect may move
  to another member \<open>I y\<close> of the family, from which leaving the effect, by return or by
  failure, comes back to \<open>I x\<close>.
\<close>

lemma returns_scoped:
  assumes st: "\<And>x. stable0 (I x)"
    and scope: "\<And>x s e. I x s \<Longrightarrow> created e s \<Longrightarrow>
       \<exists>y. I y (activate e (cleanup e (emit (Run e) s))) \<and>
           (\<forall>s3. I y s3 \<longrightarrow> I x (deactivate s3) \<and> I x (emit (Aborted e) s3))"
  shows "returns c s r s' \<Longrightarrow> I x s \<Longrightarrow> I x s'"
proof (induction arbitrary: x rule: returns.induct)
  case (Get x' k s v s1 f r s')
  have "I x (snd (get_prop x' k s))" using st Get.prems by (rule stable_get_prop)
  then show ?case using Get by simp
next
  case (Reactive x' s w s1 f r s')
  have "I x (snd (reactive x' s))" using st Reactive.prems by (rule stableD)
  then show ?case using Reactive by simp
next
  case (EffectLazy s1 s g sch f r s')
  have "I x s1" unfolding EffectLazy.hyps(1) using st EffectLazy.prems by (rule stableD)
  then show ?case by (rule EffectLazy.IH)
next
  case (EffectExc s1 s g sch s' f)
  have "I x s1" unfolding EffectExc.hyps(1) using st EffectExc.prems by (rule stableD)
  then show ?case by (rule EffectExc.IH)
next
  case (Effect s1 s g sch u s2 f r s')
  have "I x s1" unfolding Effect.hyps(1) using st Effect.prems by (rule stableD)
  then show ?case using Effect.IH by simp
next
  case (Computed f s g r s')
  have "I x (new_computed g s)" using st Computed.prems by (rule stableD)
  then show ?case by (rule Computed.IH)
next
  case (EffectFnExc e s s2 s3)
  obtain y where y: "I y s2" "\<And>s3. I y s3 \<Longrightarrow> I x (emit (Aborted e) s3)"
    using scope[OF EffectFnExc.prems EffectFnExc.hyps(1)] unfolding EffectFnExc.hyps(2) by blast
  have "I y s3" using y(1) by (rule EffectFnExc.IH)
  then show ?case by (rule y(2))
next
  case (EffectFn e s s2 v s3)
  obtain y where y: "I y s2" "\<And>s3. I y s3 \<Longrightarrow> I x (deactivate s3)"
    using scope[OF EffectFn.prems EffectFn.hyps(1)] unfolding EffectFn.hyps(2) by blast
  have "I y s3" using y(1) by (rule EffectFn.IH)
  then show ?case by (rule y(2))
next
  case (TriggerNone s t k)
  with st show ?case by (simp add: stableD)
next
  case (Trigger s t m k dep r s')
  have "I x (emit (Triggered t k) s)" using st Trigger.prems by (rule stableD)
  then show ?case by (rule Trigger.IH)
next
  case (DispatchUser s i f r s')
  have "I x (emit (Dispatched (Usr i)) s)" using st DispatchUser.prems DispatchUser.hyps(1) by (rule stableD)
  then show ?case by (rule DispatchUser.IH)
next
  case (DispatchBad s c f)
  show ?case using st DispatchBad.prems DispatchBad.hyps(1) by (rule stableD)
next
  case (DispatchComp s e c r s')
  have "I x (mark_dirty c (emit (Dispatched e) s))"
    using st DispatchComp.prems DispatchComp.hyps(1) by (rule stableD)
  then show ?case by (rule DispatchComp.IH)
next
  case (DispatchQueue s e)
  show ?case using st DispatchQueue.prems DispatchQueue.hyps(1) by (rule stableD)
next
  case (SetRaw a k v s)
  with st show ?case by (simp add: stableD)
next
  case (SetExc t k s oldValue s1 v s' p)
  have "I x (snd (get_prop t k s))" using st SetExc.prems by (rule stable_get_prop)
  then show ?case using SetExc by simp
next
  case (SetSame t k s oldValue s1 v u s' p)
  have "I x (snd (get_prop t k s))" using st SetSame.prems by (rule stable_get_prop)
  then show ?case using SetSame by simp
next
  case (SetTrigger t k s oldValue s1 v u s2 r s' p)
  have "I x (snd (get_prop t k s))" using st SetTrigger.prems by (rule stable_get_prop)
  then show ?case using SetTrigger by simp
next
  case (ValueClean s c s3)
  have "I x (emit (Read c) s)" using st ValueClean.prems by (rule stableD)
  with st show ?case unfolding ValueClean.hyps(2) by (rule stableD)
next
  case (ValueDirtyExc s c s')
  have "I x (emit (Read c) s)" using st ValueDirtyExc.prems by (rule stableD)
  then show ?case by (rule ValueDirtyExc.IH)
next
  case (ValueDirty s c v s1 s3)
  have "I x (emit (Read c) s)" using st ValueDirty.prems by (rule stableD)
  then have "I x s1" by (rule ValueDirty.IH)
  with st have "I x (cache c v s1)" by (rule stableD)
  with st show ?case unfolding ValueDirty.hyps(3) by (rule stableD)
qed simp_all

lemma returns_stable:
  assumes st: "stable I"
  shows "returns c s r s' \<Longrightarrow> I s \<Longrightarrow> I s'"
proof -
  have 0: "\<And>x::unit. stable0 I" using st by (simp add: stable_def)
  have 1: "\<And>(x::unit) s e. I s \<Longrightarrow> created e s \<Longrightarrow>
       \<exists>y::unit. I (activate e (cleanup e (emit (Run e) s))) \<and>
           (\<forall>s3. I s3 \<longrightarrow> I (deactivate s3) \<and> I (emit (Aborted e) s3))"
    using st by (simp add: stable_def)
  show "returns c s r s' \<Longrightarrow> I s \<Longrightarrow> I s'"
    using returns_scoped[where I = "\<lambda>x::unit. I", OF 0 1] by blast
qed

lemma grows_iff_suffix: "grows s s' = suffix (log s) (log s')"
  by (auto simp: grows_def suffix_def since_def)

lemma track_suffix: "suffix b (log s) \<Longrightarrow> suffix b (log (track t k s))"
  by (cases "activeEffect s") (simp_all add: track_log suffix_ConsI)

lemma stable_suffix: "stable (\<lambda>s. suffix b (log s))"
  unfolding stable_def stable0_def by (simp add: suffix_ConsI track_suffix)

lemma returns_grows: "returns c s r s' \<Longrightarrow> grows s s'"
  unfolding grows_iff_suffix by (erule returns_stable[OF stable_suffix]) simp

lemma run_grows: "run n c s = Some (r, s') \<Longrightarrow> grows s s'"
  by (rule returns_grows[OF run_returns])

text \<open>Only a flush logs \<open>Job\<close>, resets \<open>isFlushing\<close> or shortens the queue.\<close>

lemma set_add_prefix: "prefix q xs \<Longrightarrow> prefix q (set_add e xs)"
  by (auto simp: set_add_def)

lemma set_add_distinct: "distinct xs \<Longrightarrow> distinct (set_add e xs)"
  by (auto simp: set_add_def)


lemma stable_flushing: "stable (\<lambda>s. isFlushing s \<and> microtasks s = m)"
  unfolding stable_def stable0_def by simp

lemma stable_no_job: "stable (\<lambda>s. \<exists>seg. log s = seg @ b \<and> \<not> list_ex is_Job seg)"
  unfolding stable_def stable0_def
  apply (intro conjI allI impI)
  apply (auto simp: track_log is_Job_def split: option.splits)
  done

lemma run_Exec [simp]:
  "exec (Suc n) (Ret v) s = Some (Normal v, s)"
  "exec (Suc n) Throw s = Some (Exc, s)"
  "exec (Suc n) (Get x k f) s = (case get_prop x k s of (v, s1) \<Rightarrow> exec n (f v) s1)"
  "exec (Suc n) (Put x k v p) s = bind (set_prop n x k v s) (\<lambda>_ s1. exec n p s1)"
  "exec (Suc n) (Reactive x g) s = (case reactive x s of (w, s1) \<Rightarrow> exec n (g w) s1)"
  "exec (Suc n) (Effect q lz sch h) s =
     (let i = n_effects s;
          s1 = new_effect (Usr i) q lz (map_option UserSched sch) (s\<lparr>n_effects := Suc i\<rparr>)
      in if \<not> lz
         then bind (effectFn n (Usr i) s1) (\<lambda>_ s2. exec n (h i) s2)
         else exec n (h i) s1)"
  "exec (Suc n) (Invoke i f) s = bind (effectFn n (Usr i) s) (\<lambda>v s1. exec n (f v) s1)"
  "exec (Suc n) (Computed q h) s = exec n (h (n_computeds s)) (new_computed q s)"
  "exec (Suc n) (Value c f) s =
     (if c < n_computeds s
      then bind (computed_value n c s) (\<lambda>v s1. exec n (f v) s1)
      else Some (Exc, s))"
  "exec (Suc n) (Try p r) s =
     (case exec n p s of None \<Rightarrow> None | Some (o1, s1) \<Rightarrow> exec n (r o1) s1)"
  by simp_all

lemma run_EffectFn [simp]:
  "effectFn (Suc n) e s =
     (if \<not> created e s then Some (Exc, s)
      else
        (let s1 = cleanup e (emit (Run e) s);
             s2 = activate e s1
         in case exec n (fn (effects s2 e)) s2 of
              None \<Rightarrow> None
            | Some (Exc, s3) \<Rightarrow> Some (Exc, emit (Aborted e) s3)
            | Some (Normal result, s3) \<Rightarrow> Some (Normal result, deactivate s3)))"
  by simp

lemma run_Trigger [simp]:
  "trigger (Suc n) t k s =
     (let s0 = emit (Triggered t k) s
      in case targetMap s0 t of
           None \<Rightarrow> Some (Normal VUndef, s0)
         | Some depsMap \<Rightarrow>
             (case depsMap k of
                None \<Rightarrow> Some (Normal VUndef, s0)
              | Some dep \<Rightarrow> forEach_effects n dep s0))"
  by simp

lemma run_ForEach [simp]:
  "forEach_effects (Suc n) [] s = Some (Normal VUndef, s)"
  "forEach_effects (Suc n) (e # es) s = bind (dispatch n e s) (\<lambda>_ s1. forEach_effects n es s1)"
  by simp_all

lemma run_Dispatch [simp]:
  "dispatch (Suc n) e s =
     (let s0 = emit (Dispatched e) s
      in case scheduler (effects s0 e) of
           Some (UserSched f) \<Rightarrow>
             (case e of Usr i \<Rightarrow> exec n (f i) s0 | Inner c \<Rightarrow> Some (Exc, s0))
         | Some (CompSched c) \<Rightarrow> trigger n (Cmp c) ''value'' (mark_dirty c s0)
         | None \<Rightarrow> Some (Normal VUndef, queueJob e s0))"
  by simp

lemma run_SetProp [simp]:
  "set_prop (Suc n) (Raw a) k v s = Some (Normal (VBool True), heap_set a k v s)"
  "set_prop (Suc n) (Prx p t) k v s =
     (case get_prop t k s of
        (oldValue, s1) \<Rightarrow>
          bind (set_prop n t k v s1)
            (\<lambda>result s2.
               if \<not> strict_eq oldValue v
               then bind (trigger n (Obj t) k s2) (\<lambda>_ s3. Some (Normal result, s3))
               else Some (Normal result, s2)))"
  by simp_all

lemma run_ComputedValue [simp]:
  "computed_value (Suc n) c s =
     (let s0 = emit (Read c) s
      in bind
           (if comp_dirty s0 c
            then bind (effectFn n (Inner c) s0) (\<lambda>v s1. Some (Normal VUndef, cache c v s1))
            else Some (Normal VUndef, s0))
           (\<lambda>_ s2. let s3 = track (Cmp c) ''value'' s2 in Some (Normal (comp_value s3 c), s3)))"
  by simp

declare run.simps(2) [simp del]

text \<open>Unfolding the model on a concrete input.\<close>

lemmas model_defs = eval_nat_numeral init_def reactive_def new_effect_def new_computed_def
  cleanup_def activate_def deactivate_def track_def emit_def dep_delete_def set_add_def
  set_delete_def queueJob_def heap_set_def mark_dirty_def cache_def deep_def dep_of_def
  flush_def run_task_def Let_def

subsection \<open>The flush\<close>

lemma flush_jobs_stable:
  assumes st: "stable I" and job: "\<And>s e. I s \<Longrightarrow> I (emit (Job e) s)"
  shows "flush_jobs n i s = Some (r, s') \<Longrightarrow> I s \<Longrightarrow> I s'"
proof (induction n arbitrary: i s)
  case 0
  then show ?case by simp
next
  case (Suc n)
  show ?case
  proof (cases "i < length (queue s)")
    case False
    with Suc.prems show ?thesis by simp
  next
    case True
    let ?s0 = "emit (Job (queue s ! i)) s"
    have I0: "I ?s0" using Suc.prems(2) by (rule job)
    from Suc.prems(1) True
    have "bind (effectFn n (queue s ! i) ?s0) (\<lambda>_ s1. flush_jobs n (Suc i) s1) = Some (r, s')"
      by simp
    then show ?thesis
    proof (cases rule: bind_SomeE)
      case 1
      then show ?thesis using returns_stable[OF st run_returns I0] by blast
    next
      case (2 v s1)
      have "I s1" using returns_stable[OF st run_returns I0] 2(1) by blast
      then show ?thesis using Suc.IH 2(2) by blast
    qed
  qed
qed

lemma flush_Exc: "flush n s = Some (Exc, s') \<Longrightarrow> flush_jobs n 0 s = Some (Exc, s')"
  by (auto simp: flush_def elim!: bind_SomeE)

lemma run_microtasks_none: "microtasks s = 0 \<Longrightarrow> run_microtasks n s = Some s' \<Longrightarrow> s' = s"
  by (cases n) simp_all

lemma stable_queue_prefix: "stable (\<lambda>s. prefix q (queue s))"
  unfolding stable_def stable0_def by (simp add: set_add_prefix)

text \<open>
  C4 (amended). When the flush callback fails at a job, the callback is left before
  \<^verbatim>\<open>queue.clear()\<close> and \<^verbatim>\<open>isFlushing = false\<close>: \<open>isFlushing\<close> stays set with no
  callback pending. From then on no task schedules a flush: whatever code \<open>p\<close> a
  later task runs, the flag is still set, no callback is pending, the jobs that were
  queued are still queued and no job has been run by a flush.
\<close>

theorem failed_flush_blocks_the_queue:
  assumes "isFlushing s" and "microtasks s = 0"
    and "flush n s = Some (Exc, s1)"
    and "run_task m p s1 = Some s2"
  shows "isFlushing s2 \<and> microtasks s2 = 0 \<and> prefix (queue s) (queue s2)
         \<and> \<not> list_ex is_Job (since s1 s2)"
proof -
  have fj: "flush_jobs n 0 s = Some (Exc, s1)" using assms(3) by (rule flush_Exc)
  have 1: "isFlushing s1 \<and> microtasks s1 = 0"
    using flush_jobs_stable[OF stable_flushing _ fj, of 0] assms(1,2) by simp
  have 2: "prefix (queue s) (queue s1)"
    using flush_jobs_stable[OF stable_queue_prefix _ fj, of "queue s"] by simp
  obtain r s1' where ex: "exec m p s1 = Some (r, s1')" and mt: "run_microtasks m s1' = Some s2"
    using assms(4) by (auto simp: run_task_def split: option.splits)
  note ret = run_returns[OF ex]
  have 3: "isFlushing s1' \<and> microtasks s1' = 0"
    using returns_stable[OF stable_flushing ret, of 0] 1 by simp
  have 4: "prefix (queue s) (queue s1')"
    using returns_stable[OF stable_queue_prefix ret, of "queue s"] 2 by simp
  have "\<exists>seg. log s1' = seg @ log s1 \<and> \<not> list_ex is_Job seg"
    using returns_stable[OF stable_no_job ret, of "log s1"] by simp
  then have 5: "\<not> list_ex is_Job (since s1 s1')"
    by (auto simp: grows_since)
  have "s2 = s1'" using run_microtasks_none[OF _ mt] 3 by simp
  with 3 4 5 show ?thesis by simp
qed

text \<open>
  The witness and the counterexample run two tasks from the initial state. The first
  makes two effects that read \<^verbatim>\<open>k\<close> and then writes \<^verbatim>\<open>k = 1\<close>, on which the first
  effect throws; the second task writes \<^verbatim>\<open>k = 2\<close>. The second effect, which copies
  \<^verbatim>\<open>k\<close> to \<^verbatim>\<open>seen\<close>, is queued by both writes and never runs again: \<^verbatim>\<open>seen\<close> is 0
  and it has run once, when it was made.
\<close>

theorem failed_flush_counterexample:
  "Option.bind (run_task 30 c4_first init) (run_task 30 c4_second) = Some c4_end
   \<and> heap c4_end 1 ''seen'' = Some (VNum 0) \<and> queue c4_end = [Usr 0, Usr 1]
   \<and> isFlushing c4_end \<and> microtasks c4_end = 0
   \<and> count_list (log c4_end) (Run (Usr 1)) = 1
   \<and> count_list (log c4_end) (Triggered (Obj (Raw 0)) ''k'') = 2"
proof -
  have "Option.bind (run_task 30 c4_first init) (run_task 30 c4_second) \<noteq> None"
    by (simp add: model_defs c4_first_def c4_second_def)
  then have "Option.bind (run_task 30 c4_first init) (run_task 30 c4_second) = Some c4_end"
    unfolding c4_end_def by simp
  then show ?thesis
    by (simp add: c4_end_def model_defs c4_first_def c4_second_def)
qed

lemma the_SomeI: "m \<noteq> None \<Longrightarrow> fst (the m) = a \<Longrightarrow> m = Some (a, snd (the m))"
  by auto

theorem failed_flush_witness:
  "isFlushing c4_pending \<and> microtasks c4_pending = 0
   \<and> flush 29 c4_pending = Some (Exc, c4_failed)
   \<and> run_task 30 c4_second c4_failed = Some c4_after
   \<and> queue c4_pending = [Usr 0, Usr 1]
   \<and> isFlushing c4_after \<and> microtasks c4_after = 0
   \<and> prefix (queue c4_pending) (queue c4_after)
   \<and> \<not> list_ex is_Job (since c4_failed c4_after)"
proof -
  have p: "isFlushing c4_pending" "microtasks c4_pending = 0" "queue c4_pending = [Usr 0, Usr 1]"
    by (simp_all add: c4_pending_def model_defs c4_first_def)
  have "flush 29 c4_pending \<noteq> None \<and> fst (the (flush 29 c4_pending)) = Exc"
    by (simp add: c4_pending_def model_defs c4_first_def)
  then have f: "flush 29 c4_pending = Some (Exc, c4_failed)"
    unfolding c4_failed_def by (simp add: the_SomeI)
  have "run_task 30 c4_second c4_failed \<noteq> None"
    by (simp add: c4_failed_def c4_pending_def model_defs c4_first_def c4_second_def)
  then have r: "run_task 30 c4_second c4_failed = Some c4_after"
    unfolding c4_after_def by simp
  show ?thesis
    using failed_flush_blocks_the_queue[OF p(1) p(2) f r] p f r by simp
qed

section \<open>The active effect and the stack\<close>

lemma dep_of_track:
  "dep_of (track t k s) t' k' =
     (case activeEffect s of
        None \<Rightarrow> dep_of s t' k'
      | Some e \<Rightarrow> if t' = t \<and> k' = k then set_add e (dep_of s t k) else dep_of s t' k')"
  by (auto simp: dep_of_def track_def Let_def split: option.splits)

lemma set_set_add [simp]: "set (set_add e xs) = insert e (set xs)"
  by (auto simp: set_add_def)

lemma track_registers:
  "activeEffect s = Some e \<Longrightarrow> set (dep_of (track t k s) t k) = insert e (set (dep_of s t k))"
  by (simp add: dep_of_track)

lemma is_Aborted_simps [simp]:
  "is_Aborted (Aborted e)" "\<not> is_Aborted (Run e)" "\<not> is_Aborted (Tracked e t k)"
  "\<not> is_Aborted (Triggered t k)" "\<not> is_Aborted (Dispatched e)" "\<not> is_Aborted (Job e)"
  "\<not> is_Aborted (Read c)"
  by (simp_all add: is_Aborted_def)

lemma balanced_step:
  assumes "effectStack s' = effectStack s"
    and "log s' = log s \<or> (\<exists>ev. \<not> is_Aborted ev \<and> log s' = ev # log s)"
    and "balanced x s"
  shows "balanced x s'"
proof -
  obtain seg where seg: "log s = seg @ fst x" "\<not> list_ex is_Aborted seg \<longrightarrow> effectStack s = snd x"
    and pre: "prefix (snd x) (effectStack s)"
    using assms(3) unfolding balanced_def by blast
  from assms(2) show ?thesis
  proof
    assume "log s' = log s"
    then show ?thesis using seg pre assms(1) unfolding balanced_def by auto
  next
    assume "\<exists>ev. \<not> is_Aborted ev \<and> log s' = ev # log s"
    then obtain ev where ev: "\<not> is_Aborted ev" "log s' = ev # log s" by blast
    have "log s' = (ev # seg) @ fst x" using ev seg by simp
    moreover have "\<not> list_ex is_Aborted (ev # seg) \<longrightarrow> effectStack s' = snd x"
      using seg(2) ev(1) assms(1) by simp
    ultimately show ?thesis using pre assms(1) unfolding balanced_def by metis
  qed
qed

lemma stable0_balanced: "stable0 (balanced x)"
  unfolding stable0_def
  apply (intro conjI allI impI)
  apply (erule balanced_step[rotated 2]; simp add: track_log split: option.splits)+
  done

lemma prefix_snoc_butlast: "prefix (xs @ [e]) ys \<Longrightarrow> prefix xs (butlast ys)"
  by (auto simp: prefix_def butlast_append)

lemma scope_balanced:
  assumes "balanced x s"
  shows "\<exists>y. balanced y (activate e (cleanup e (emit (Run e) s))) \<and>
           (\<forall>s3. balanced y s3 \<longrightarrow> balanced x (deactivate s3) \<and> balanced x (emit (Aborted e) s3))"
proof -
  let ?s2 = "activate e (cleanup e (emit (Run e) s))"
  let ?y = "(log ?s2, effectStack s @ [e])"
  obtain seg where seg: "log s = seg @ fst x" "\<not> list_ex is_Aborted seg \<longrightarrow> effectStack s = snd x"
    and pre: "prefix (snd x) (effectStack s)"
    using assms unfolding balanced_def by blast
  have 1: "balanced ?y ?s2" by (simp add: balanced_def)
  have 2: "balanced x (deactivate s3) \<and> balanced x (emit (Aborted e) s3)" if b: "balanced ?y s3" for s3
  proof -
    obtain seg' where seg': "log s3 = seg' @ Run e # log s"
        "\<not> list_ex is_Aborted seg' \<longrightarrow> effectStack s3 = effectStack s @ [e]"
      and pre': "prefix (effectStack s @ [e]) (effectStack s3)"
      using b unfolding balanced_def by auto
    have p1: "prefix (snd x) (butlast (effectStack s3))"
      using pre prefix_snoc_butlast[OF pre'] by (rule prefix_order.trans)
    have p2: "prefix (snd x) (effectStack s3)"
      using pre pre' by (meson prefix_order.trans prefix_snocD prefixI append_prefixD)
    have l: "log s3 = (seg' @ Run e # seg) @ fst x" using seg' seg by simp
    have d: "\<not> list_ex is_Aborted (seg' @ Run e # seg) \<longrightarrow> butlast (effectStack s3) = snd x"
      using seg' seg by auto
    have "balanced x (deactivate s3)"
      unfolding balanced_def using p1 l d by (metis deactivate_fields(8,12))
    moreover have "balanced x (emit (Aborted e) s3)"
      unfolding balanced_def using p2 l
      by (auto intro!: exI[of _ "Aborted e # seg' @ Run e # seg"])
    ultimately show ?thesis by simp
  qed
  show ?thesis using 1 2 by blast
qed

lemma returns_balanced: "returns c s r s' \<Longrightarrow> balanced x s \<Longrightarrow> balanced x s'"
  by (rule returns_scoped[where I = balanced, OF stable0_balanced scope_balanced])

lemma coherent_stable: "stable coherent"
  unfolding stable_def stable0_def coherent_def by (simp add: top_def)

lemma balanced_start: "balanced (log s, effectStack s) s"
  by (simp add: balanced_def)

lemma balancedD:
  assumes "balanced (log s, effectStack s) s'"
  shows "prefix (effectStack s) (effectStack s')"
    and "\<not> list_ex is_Aborted (since s s') \<Longrightarrow> effectStack s' = effectStack s"
  using assms by (auto simp: balanced_def grows_since)

inductive_cases EffectFnE: "returns (EffectFn e) s r s'"

lemma EffectFn_cases:
  assumes "returns (EffectFn e) s r s'"
  obtains (none) "\<not> created e s" "r = Exc" "s' = s"
  | (failed) s3 where "created e s"
      "returns (Exec (fn (effects (activate e (cleanup e (emit (Run e) s))) e)))
         (activate e (cleanup e (emit (Run e) s))) Exc s3"
      "r = Exc" "s' = emit (Aborted e) s3"
  | (returned) v s3 where "created e s"
      "returns (Exec (fn (effects (activate e (cleanup e (emit (Run e) s))) e)))
         (activate e (cleanup e (emit (Run e) s))) (Normal v) s3"
      "r = Normal v" "s' = deactivate s3"
  using assms by (rule EffectFnE) auto

lemma effectFn_failed:
  assumes "effectFn n e s = Some (Exc, s')" and "created e s"
  shows "prefix (effectStack s @ [e]) (effectStack s') \<and> activeEffect s' \<noteq> None"
proof -
  let ?s2 = "activate e (cleanup e (emit (Run e) s))"
  from run_returns[OF assms(1)] show ?thesis
  proof (cases rule: EffectFn_cases)
    case none
    then show ?thesis using assms(2) by simp
  next
    case (failed s3)
    have b: "balanced (log ?s2, effectStack ?s2) s3"
      using returns_balanced[OF failed(2) balanced_start] .
    have p: "prefix (effectStack s @ [e]) (effectStack s3)"
      using balancedD(1)[OF b] by simp
    have "coherent ?s2" by (simp add: coherent_def top_def)
    then have "coherent s3" using returns_stable[OF coherent_stable failed(2)] by blast
    moreover have "effectStack s3 \<noteq> []" using p by auto
    ultimately have "activeEffect s3 \<noteq> None" by (simp add: coherent_def top_def)
    then show ?thesis using failed p by simp
  next
    case (returned v s3)
    then show ?thesis by simp
  qed
qed

lemma effectFn_returned:
  assumes "effectFn n e s = Some (Normal v, s')" and "\<not> list_ex is_Aborted (since s s')"
  shows "effectStack s' = effectStack s \<and> activeEffect s' = top (effectStack s)"
proof -
  note ret = run_returns[OF assms(1)]
  have b: "balanced (log s, effectStack s) s'"
    using returns_balanced[OF ret balanced_start] .
  have e: "effectStack s' = effectStack s" using balancedD(2)[OF b assms(2)] .
  from ret have "activeEffect s' = top (effectStack s')"
    by (cases rule: EffectFn_cases) simp_all
  with e show ?thesis by simp
qed

text \<open>
  C3 (amended). The deactivate step of \<open>effectFn\<close> runs when the function returns and
  does not run when it raises. When the function of an existing effect raises, the
  failure leaves \<open>effectFn\<close> at once: the effect stays on the stack (above what the
  stack held) and an effect stays active. When the function returns and no effect
  function failed during the run, the effect is popped: the stack is what it was and
  its top (or none) is the active effect.
\<close>

theorem effectFn_deactivates_only_on_return:
  assumes "effectFn n e s = Some (r, s')" and "created e s"
  shows "(r = Exc \<longrightarrow> prefix (effectStack s @ [e]) (effectStack s') \<and> activeEffect s' \<noteq> None)
       \<and> (r \<noteq> Exc \<longrightarrow> \<not> list_ex is_Aborted (since s s')
            \<longrightarrow> effectStack s' = effectStack s \<and> activeEffect s' = top (effectStack s))"
proof (cases r)
  case Exc
  then show ?thesis using effectFn_failed assms by blast
next
  case (Normal v)
  then show ?thesis using effectFn_returned assms by blast
qed

lemma the_SomeI2: "m \<noteq> None \<Longrightarrow> fst (the m) = a \<Longrightarrow> s = snd (the m) \<Longrightarrow> m = Some (a, s)"
  by auto

text \<open>
  An effect whose function throws, called from the top level: afterwards it is on the
  stack, which was empty, and it is the active effect.
\<close>

theorem failed_effect_stays_active_counterexample:
  "effectStack c3_state = [] \<and> activeEffect c3_state = None
   \<and> effectFn 5 (Usr 0) c3_state = Some (Exc, c3_after)
   \<and> effectStack c3_after = [Usr 0] \<and> activeEffect c3_after = Some (Usr 0)"
proof -
  have "effectFn 5 (Usr 0) c3_state = Some (Exc, c3_after)"
    by (rule the_SomeI2) (simp_all add: c3_after_def c3_state_def c3_script_def model_defs)
  then show ?thesis
    by (simp add: c3_after_def c3_state_def c3_script_def model_defs)
qed

theorem effectFn_deactivates_witness:
  "created (Usr 0) c3_state \<and> effectFn 5 (Usr 0) c3_state = Some (Exc, c3_after)
   \<and> prefix (effectStack c3_state @ [Usr 0]) (effectStack c3_after)
   \<and> activeEffect c3_after \<noteq> None
   \<and> created (Usr 0) c3_ok_state
   \<and> effectFn 5 (Usr 0) c3_ok_state = Some (Normal (VNum 1), c3_ok_after)
   \<and> \<not> list_ex is_Aborted (since c3_ok_state c3_ok_after)
   \<and> effectStack c3_ok_after = effectStack c3_ok_state
   \<and> activeEffect c3_ok_after = top (effectStack c3_ok_state)"
proof -
  have c: "created (Usr 0) c3_state" "created (Usr 0) c3_ok_state"
    by (simp_all add: c3_state_def c3_script_def c3_ok_state_def c3_ok_script_def model_defs)
  have f: "effectFn 5 (Usr 0) c3_state = Some (Exc, c3_after)"
    by (rule the_SomeI2) (simp_all add: c3_after_def c3_state_def c3_script_def model_defs)
  have g: "effectFn 5 (Usr 0) c3_ok_state = Some (Normal (VNum 1), c3_ok_after)"
    by (rule the_SomeI2) (simp_all add: c3_ok_after_def c3_ok_state_def c3_ok_script_def model_defs)
  have n: "\<not> list_ex is_Aborted (since c3_ok_state c3_ok_after)"
    by (simp add: since_def c3_ok_after_def c3_ok_state_def c3_ok_script_def model_defs)
  show ?thesis
    using effectFn_deactivates_only_on_return[OF f c(1)]
      effectFn_deactivates_only_on_return[OF g c(2)] c f g n by simp
qed

text \<open>
  The outer effect calls an inner effect, which calls in a \<^verbatim>\<open>try\<close> block an effect that
  throws; the outer effect then reads \<^verbatim>\<open>a\<close>. The inner effect returns with itself on
  top of the stack, and the read is tracked against the inner effect (\<open>Usr 1\<close>), not the
  outer one (\<open>Usr 2\<close>).
\<close>

theorem inner_effect_counterexample:
  "exec 20 c7_script init = Some (Normal VUndef, c7_end)
   \<and> dep_of c7_end (Obj (Raw 0)) ''a'' = [Usr 1]
   \<and> deps (effects c7_end (Usr 2)) = []
   \<and> rev (log c7_end) =
       [Run (Usr 2), Run (Usr 1), Run (Usr 0), Aborted (Usr 0), Tracked (Usr 1) (Obj (Raw 0)) ''a'']"
proof -
  have "exec 20 c7_script init = Some (Normal VUndef, c7_end)"
    by (rule the_SomeI2) (simp_all add: c7_end_def c7_script_def model_defs)
  then show ?thesis
    by (simp add: c7_end_def c7_script_def model_defs)
qed

section \<open>Writes through the reactive wrapper\<close>





lemma run_Suc: "run n c s = Some (r, s') \<Longrightarrow> \<exists>m. n = Suc m"
  by (cases n) simp_all


section \<open>Reads through the reactive wrapper\<close>

lemma is_object_simps [simp]:
  "is_object (VObj x)" "\<not> is_object VUndef" "\<not> is_object VNull" "\<not> is_object (VBool b)"
  "\<not> is_object (VNum i)" "\<not> is_object VNaN" "\<not> is_object (VStr str)"
  by (simp_all add: is_object_def)

lemma is_objectE: "is_object v \<Longrightarrow> (\<And>x. v = VObj x \<Longrightarrow> P) \<Longrightarrow> P"
  by (cases v) simp_all

lemma deep_is_object [simp]: "is_object (fst (deep v s)) = is_object v"
  by (rule deep_cases[of v s]) (auto elim: is_objectE)








inductive_cases ForEachNilE: "returns (ForEach []) s r s'"











section \<open>The scheduler queue\<close>

lemma jobs_run_simps [simp]:
  "jobs_run [] = []"
  "jobs_run (Job e # seg) = jobs_run seg @ [e]"
  "jobs_run (Run e # seg) = jobs_run seg"
  "jobs_run (Aborted e # seg) = jobs_run seg"
  "jobs_run (Tracked e t k # seg) = jobs_run seg"
  "jobs_run (Triggered t k # seg) = jobs_run seg"
  "jobs_run (Dispatched e # seg) = jobs_run seg"
  "jobs_run (Read c # seg) = jobs_run seg"
  "jobs_run (seg @ seg') = jobs_run seg' @ jobs_run seg"
  by (simp_all add: jobs_run_def)



lemma created_mono_stable: "stable (\<lambda>s. created e s \<and> scheduler (effects s e) = sch)"
  unfolding stable_def stable0_def by (cases e) (auto simp: track_def Let_def split: option.splits)

lemma track_effects_scheduler [simp]: "scheduler (effects (track t k s) e) = scheduler (effects s e)"
  by (simp add: track_def Let_def split: option.splits)






lemma flush_cases:
  assumes "flush n s = Some (r, s')"
  obtains (failed) "flush_jobs n 0 s = Some (Exc, s')" "r = Exc"
  | (completed) v sf where "flush_jobs n 0 s = Some (Normal v, sf)"
      "s' = sf\<lparr>queue := [], isFlushing := False\<rparr>" "r = Normal VUndef"
  using assms by (auto simp: flush_def elim!: bind_SomeE)



section \<open>The dependency graph\<close>

lemma current_run_Cons:
  "current_run e (ev # l) = (if ev = Run e then [] else ev # current_run e l)"
  by (simp add: current_run_def)

lemma dep_of_cong: "targetMap s' = targetMap s \<Longrightarrow> dep_of s' = dep_of s"
  by (simp add: dep_of_def fun_eq_iff)

lemma dep_of_simps [simp]:
  "dep_of (emit ev s) = dep_of s" "dep_of (activate e s) = dep_of s"
  "dep_of (deactivate s) = dep_of s" "dep_of (queueJob e s) = dep_of s"
  "dep_of (snd (reactive x s)) = dep_of s" "dep_of (new_effect e q lz sch s) = dep_of s"
  "dep_of (new_computed q s) = dep_of s" "dep_of (heap_set a k v s) = dep_of s"
  "dep_of (mark_dirty c s) = dep_of s" "dep_of (cache c v s) = dep_of s"
  "dep_of (s\<lparr>n_effects := i\<rparr>) = dep_of s"
  by (rule dep_of_cong, simp)+

lemma dep_of_dep_delete:
  "dep_of (dep_delete e d s) t k =
     (if (t, k) = d then removeAll e (dep_of s t k) else dep_of s t k)"
  by (cases d) (auto simp: dep_of_def dep_delete_def set_delete_def split: option.splits)

lemma dep_of_fold_dep_delete:
  "dep_of (fold (dep_delete e) ds s) t k =
     (if (t, k) \<in> set ds then removeAll e (dep_of s t k) else dep_of s t k)"
proof (induction ds arbitrary: s)
  case Nil
  show ?case by simp
next
  case (Cons d ds)
  show ?case by (simp add: Cons.IH dep_of_dep_delete)
qed

lemma dep_of_cleanup:
  "dep_of (cleanup e s) t k =
     (if (t, k) \<in> set (deps (effects s e)) then removeAll e (dep_of s t k) else dep_of s t k)"
proof -
  have "dep_of (cleanup e s) = dep_of (fold (dep_delete e) (deps (effects s e)) s)"
    by (rule dep_of_cong) (simp add: cleanup_def Let_def)
  then show ?thesis by (simp add: dep_of_fold_dep_delete)
qed

lemma deps_track:
  "deps (effects (track t k s) e) =
     (if activeEffect s = Some e then deps (effects s e) @ [(t, k)] else deps (effects s e))"
  by (simp add: track_def Let_def split: option.splits)

lemma graph_exactD:
  assumes "graph_exact s"
  shows "(e \<in> set (dep_of s t k)) = ((t, k) \<in> set (deps (effects s e)))"
    and "((t, k) \<in> set (deps (effects s e))) = (Tracked e t k \<in> set (current_run e (log s)))"
    and "distinct (dep_of s t k)"
    and "\<not> created e s \<Longrightarrow> deps (effects s e) = []"
    and "e \<in> set (effectStack s) \<Longrightarrow> created e s"
    and "coherent s"
  using assms unfolding graph_exact_def by blast+

lemma graph_exactI:
  assumes "\<And>e t k. (e \<in> set (dep_of s t k)) = ((t, k) \<in> set (deps (effects s e)))"
    and "\<And>e t k. ((t, k) \<in> set (deps (effects s e))) = (Tracked e t k \<in> set (current_run e (log s)))"
    and "\<And>t k. distinct (dep_of s t k)"
    and "\<And>e. \<not> created e s \<Longrightarrow> deps (effects s e) = []"
    and "\<And>e. e \<in> set (effectStack s) \<Longrightarrow> created e s"
    and "coherent s"
  shows "graph_exact s"
  using assms unfolding graph_exact_def by blast

lemma active_created:
  assumes "graph_exact s" and "activeEffect s = Some e"
  shows "created e s"
proof -
  have "activeEffect s = top (effectStack s)"
    using graph_exactD(6)[OF assms(1)] by (simp add: coherent_def)
  then have "effectStack s \<noteq> []" "e = last (effectStack s)"
    using assms(2) by (auto simp: top_def split: if_splits)
  then have "e \<in> set (effectStack s)" by simp
  then show ?thesis by (rule graph_exactD(5)[OF assms(1)])
qed

text \<open>An update that touches neither the graph nor the stack and logs no run or track.\<close>

lemma graph_step:
  assumes g: "graph_exact s"
    and "targetMap s' = targetMap s"
    and "\<And>e. deps (effects s' e) = deps (effects s e)"
    and "\<And>e. created e s \<Longrightarrow> created e s'"
    and "effectStack s' = effectStack s" and "activeEffect s' = activeEffect s"
    and "log s' = log s \<or> (\<exists>ev. log s' = ev # log s \<and> (\<forall>e. ev \<noteq> Run e) \<and> (\<forall>e t k. ev \<noteq> Tracked e t k))"
  shows "graph_exact s'"
proof (rule graph_exactI)
  note d = dep_of_cong[OF assms(2)]
  fix e t k
  show "(e \<in> set (dep_of s' t k)) = ((t, k) \<in> set (deps (effects s' e)))"
    using graph_exactD(1)[OF g] d assms(3) by simp
  have "(Tracked e t k \<in> set (current_run e (log s'))) = (Tracked e t k \<in> set (current_run e (log s)))"
    using assms(7) by (auto simp: current_run_Cons)
  then show "((t, k) \<in> set (deps (effects s' e))) = (Tracked e t k \<in> set (current_run e (log s')))"
    using graph_exactD(2)[OF g] assms(3) by simp
  show "distinct (dep_of s' t k)" using graph_exactD(3)[OF g] d by simp
  show "deps (effects s' e) = []" if "\<not> created e s'"
    using that graph_exactD(4)[OF g, of e] assms(3,4) by auto
  show "created e s'" if "e \<in> set (effectStack s')"
    using that graph_exactD(5)[OF g, of e] assms(4,5) by auto
next
  show "coherent s'" using graph_exactD(6)[OF g] assms(5,6) by (simp add: coherent_def)
qed

lemma graph_new_effect:
  assumes g: "graph_exact s"
  shows "graph_exact (new_effect (Usr (n_effects s)) q lz sch (s\<lparr>n_effects := Suc (n_effects s)\<rparr>))"
proof (rule graph_step[OF g])
  fix e
  have "deps (effects s (Usr (n_effects s))) = []"
    by (rule graph_exactD(4)[OF g]) simp
  then show "deps (effects (new_effect (Usr (n_effects s)) q lz sch (s\<lparr>n_effects := Suc (n_effects s)\<rparr>)) e)
    = deps (effects s e)" by simp
  show "created e s \<Longrightarrow> created e (new_effect (Usr (n_effects s)) q lz sch (s\<lparr>n_effects := Suc (n_effects s)\<rparr>))"
    by (cases e) (simp_all add: new_effect_def)
qed simp_all

lemma graph_new_computed:
  assumes g: "graph_exact s"
  shows "graph_exact (new_computed q s)"
proof (rule graph_step[OF g])
  fix e
  have "deps (effects s (Inner (n_computeds s))) = []"
    by (rule graph_exactD(4)[OF g]) simp
  then show "deps (effects (new_computed q s) e) = deps (effects s e)" by simp
  show "created e s \<Longrightarrow> created e (new_computed q s)"
    by (cases e) simp_all
qed simp_all

lemma graph_deactivate:
  assumes g: "graph_exact s"
  shows "graph_exact (deactivate s)"
proof (rule graph_exactI)
  fix e t k
  show "(e \<in> set (dep_of (deactivate s) t k)) = ((t, k) \<in> set (deps (effects (deactivate s) e)))"
    using graph_exactD(1)[OF g] by simp
  show "((t, k) \<in> set (deps (effects (deactivate s) e)))
      = (Tracked e t k \<in> set (current_run e (log (deactivate s))))"
    using graph_exactD(2)[OF g] by simp
  show "distinct (dep_of (deactivate s) t k)" using graph_exactD(3)[OF g] by simp
  show "deps (effects (deactivate s) e) = []" if "\<not> created e (deactivate s)"
    using that graph_exactD(4)[OF g, of e] by simp
  show "created e (deactivate s)" if "e \<in> set (effectStack (deactivate s))"
    using that graph_exactD(5)[OF g, of e] by (auto dest: in_set_butlastD)
next
  show "coherent (deactivate s)" by (simp add: coherent_def)
qed

lemma graph_track:
  assumes g: "graph_exact s"
  shows "graph_exact (track t0 k0 s)"
proof (cases "activeEffect s")
  case None
  then have "track t0 k0 s = s" by (simp add: track_def)
  then show ?thesis using g by simp
next
  case (Some a)
  have ca: "created a s" using g Some by (rule active_created)
  let ?s' = "track t0 k0 s"
  have dep: "\<And>t k. dep_of ?s' t k =
      (if t = t0 \<and> k = k0 then set_add a (dep_of s t0 k0) else dep_of s t k)"
    using Some by (simp add: dep_of_track)
  have ds: "\<And>e. deps (effects ?s' e) =
      (if e = a then deps (effects s e) @ [(t0, k0)] else deps (effects s e))"
    using Some by (auto simp: deps_track)
  have lg: "log ?s' = Tracked a t0 k0 # log s" using Some by (simp add: track_log)
  show ?thesis
  proof (rule graph_exactI)
    fix e t k
    show "(e \<in> set (dep_of ?s' t k)) = ((t, k) \<in> set (deps (effects ?s' e)))"
      using graph_exactD(1)[OF g, of e t k] graph_exactD(1)[OF g, of e t0 k0]
      by (auto simp: dep ds)
    show "((t, k) \<in> set (deps (effects ?s' e))) = (Tracked e t k \<in> set (current_run e (log ?s')))"
      using graph_exactD(2)[OF g, of t k e]
      by (auto simp: ds lg current_run_Cons)
    show "distinct (dep_of ?s' t k)"
      using graph_exactD(3)[OF g] by (simp add: dep set_add_distinct)
    show "deps (effects ?s' e) = []" if "\<not> created e ?s'"
      using that graph_exactD(4)[OF g, of e] ca by (auto simp: ds)
    show "created e ?s'" if "e \<in> set (effectStack ?s')"
      using that graph_exactD(5)[OF g, of e] by simp
  next
    show "coherent ?s'" using graph_exactD(6)[OF g] by (simp add: coherent_def)
  qed
qed

lemma graph_begin:
  assumes g: "graph_exact s" and c: "created e s"
  shows "graph_exact (activate e (cleanup e (emit (Run e) s)))"
proof (rule graph_exactI)
  let ?s' = "activate e (cleanup e (emit (Run e) s))"
  have dep: "\<And>t k. dep_of ?s' t k =
      (if (t, k) \<in> set (deps (effects s e)) then removeAll e (dep_of s t k) else dep_of s t k)"
    by (simp add: dep_of_cleanup)
  have ds: "\<And>e'. deps (effects ?s' e') = (if e' = e then [] else deps (effects s e'))"
    by simp
  have lg: "log ?s' = Run e # log s" by simp
  fix e' t k
  show "(e' \<in> set (dep_of ?s' t k)) = ((t, k) \<in> set (deps (effects ?s' e')))"
    using graph_exactD(1)[OF g, of e' t k] graph_exactD(1)[OF g, of e t k]
    unfolding dep ds by auto
  show "((t, k) \<in> set (deps (effects ?s' e'))) = (Tracked e' t k \<in> set (current_run e' (log ?s')))"
    using graph_exactD(2)[OF g, of t k e']
    unfolding ds lg by (auto simp: current_run_Cons)
  show "distinct (dep_of ?s' t k)"
    using graph_exactD(3)[OF g, of t k] unfolding dep by (simp add: distinct_removeAll)
  show "deps (effects ?s' e') = []" if "\<not> created e' ?s'"
    using that graph_exactD(4)[OF g, of e'] unfolding ds by simp
  show "created e' ?s'" if "e' \<in> set (effectStack ?s')"
    using that graph_exactD(5)[OF g, of e'] c by auto
next
  show "coherent (activate e (cleanup e (emit (Run e) s)))" by (simp add: coherent_def top_def)
qed

lemma stable_graph_exact: "stable graph_exact"
  unfolding stable_def stable0_def
proof (intro conjI allI impI)
  fix s t k assume "graph_exact s"
  then show "graph_exact (track t k s)" by (rule graph_track)
next
  fix s q lz sch assume "graph_exact s"
  then show "graph_exact (new_effect (Usr (n_effects s)) q lz (map_option UserSched sch)
      (s\<lparr>n_effects := Suc (n_effects s)\<rparr>))" by (rule graph_new_effect)
next
  fix s q assume "graph_exact s"
  then show "graph_exact (new_computed q s)" by (rule graph_new_computed)
next
  fix s e assume "graph_exact s" "created e s"
  then show "graph_exact (activate e (cleanup e (emit (Run e) s)))" by (rule graph_begin)
next
  fix s assume "graph_exact s"
  then show "graph_exact (deactivate s)" by (rule graph_deactivate)
qed (erule graph_step; simp)+

lemma graph_exact_init: "graph_exact init"
  by (simp add: graph_exact_def init_def dep_of_def current_run_def coherent_def top_def)

lemma created_record_simps [simp]:
  "created e (s\<lparr>queue := q, isFlushing := b\<rparr>) = created e s"
  "created e (s\<lparr>microtasks := m\<rparr>) = created e s"
  by (cases e; simp)+

lemma graph_exact_run: "graph_exact s \<Longrightarrow> run n c s = Some (r, s') \<Longrightarrow> graph_exact s'"
  using returns_stable[OF stable_graph_exact run_returns] by blast

lemma graph_exact_flush:
  assumes "graph_exact s" and "flush n s = Some (r, s')"
  shows "graph_exact s'"
proof -
  have j: "\<And>s e. graph_exact s \<Longrightarrow> graph_exact (emit (Job e) s)"
    by (erule graph_step) simp_all
  from assms(2) show ?thesis
  proof (cases rule: flush_cases)
    case failed
    then show ?thesis using flush_jobs_stable[OF stable_graph_exact j] assms(1) by blast
  next
    case (completed v sf)
    have "graph_exact sf" using flush_jobs_stable[OF stable_graph_exact j completed(1) assms(1)] .
    then show ?thesis unfolding completed(2)
      by (rule graph_step) (simp_all add: dep_of_def)
  qed
qed

lemma graph_exact_microtasks:
  "graph_exact s \<Longrightarrow> run_microtasks n s = Some s' \<Longrightarrow> graph_exact s'"
proof (induction n arbitrary: s)
  case 0
  then show ?case by simp
next
  case (Suc n)
  show ?case
  proof (cases "microtasks s = 0")
    case True
    then show ?thesis using Suc.prems by simp
  next
    case False
    let ?s0 = "s\<lparr>microtasks := microtasks s - 1\<rparr>"
    have g0: "graph_exact ?s0" using Suc.prems(1) by (rule graph_step) simp_all
    obtain r s1 where f: "flush n ?s0 = Some (r, s1)" and m: "run_microtasks n s1 = Some s'"
      using Suc.prems(2) False by (auto split: option.splits)
    show ?thesis using Suc.IH[OF graph_exact_flush[OF g0 f] m] .
  qed
qed

text \<open>The invariant holds when the module is loaded, and every task keeps it.\<close>

lemma graph_exact_run_task:
  assumes "graph_exact s" and "run_task n p s = Some s'"
  shows "graph_exact s'"
proof -
  obtain r s1 where e: "exec n p s = Some (r, s1)" and m: "run_microtasks n s1 = Some s'"
    using assms(2) by (auto simp: run_task_def split: option.splits)
  show ?thesis using graph_exact_microtasks[OF graph_exact_run[OF assms(1) e] m] .
qed

lemma current_run_latest:
  "Run e \<notin> set seg \<Longrightarrow> current_run e (seg @ Run e # l) = seg"
  by (auto simp: current_run_def takeWhile_tail)

section \<open>Trigger and its snapshot\<close>

lemma dispatched_simps [simp]:
  "dispatched [] = []"
  "dispatched (Dispatched e # seg) = dispatched seg @ [e]"
  "dispatched (Run e # seg) = dispatched seg"
  "dispatched (Aborted e # seg) = dispatched seg"
  "dispatched (Tracked e t k # seg) = dispatched seg"
  "dispatched (Triggered t k # seg) = dispatched seg"
  "dispatched (Job e # seg) = dispatched seg"
  "dispatched (Read c # seg) = dispatched seg"
  "dispatched (seg @ seg') = dispatched seg' @ dispatched seg"
  by (simp_all add: dispatched_def)

lemma is_Triggered_simps [simp]:
  "is_Triggered (Triggered t k)" "\<not> is_Triggered (Run e)" "\<not> is_Triggered (Tracked e t k)"
  "\<not> is_Triggered (Aborted e)" "\<not> is_Triggered (Dispatched e)" "\<not> is_Triggered (Job e)"
  "\<not> is_Triggered (Read c)"
  by (simp_all add: is_Triggered_def)

lemma delivered_same: "log s' = log s \<Longrightarrow> delivered b D s \<Longrightarrow> delivered b D s'"
  by (simp add: delivered_def)

lemma delivered_emit:
  assumes "delivered b D s" and "\<And>e. ev \<noteq> Dispatched e"
  shows "delivered b D (emit ev s)"
proof -
  obtain seg where seg: "log s = seg @ b" "\<not> list_ex is_Triggered seg \<longrightarrow> dispatched seg = D"
    using assms(1) unfolding delivered_def by blast
  have "log (emit ev s) = (ev # seg) @ b" using seg(1) by simp
  moreover have "\<not> list_ex is_Triggered (ev # seg) \<longrightarrow> dispatched (ev # seg) = D"
    using seg(2) assms(2) by (cases ev) auto
  ultimately show ?thesis unfolding delivered_def by blast
qed

lemma delivered_Dispatched:
  assumes "delivered b D s"
  shows "delivered b (D @ [e]) (emit (Dispatched e) s)"
proof -
  obtain seg where seg: "log s = seg @ b" "\<not> list_ex is_Triggered seg \<longrightarrow> dispatched seg = D"
    using assms(1) unfolding delivered_def by blast
  have "log (emit (Dispatched e) s) = (Dispatched e # seg) @ b" using seg(1) by simp
  moreover have "\<not> list_ex is_Triggered (Dispatched e # seg)
      \<longrightarrow> dispatched (Dispatched e # seg) = D @ [e]"
    using seg(2) by simp
  ultimately show ?thesis unfolding delivered_def by blast
qed

lemma delivered_after_trigger:
  assumes "delivered b D s" and "grows (emit (Triggered t k) s) s'"
  shows "delivered b D' s'"
proof -
  obtain seg where seg: "log s = seg @ b" using assms(1) unfolding delivered_def by blast
  obtain x where "log s' = x @ Triggered t k # log s"
    using assms(2) by (auto simp: grows_def)
  then have "log s' = (x @ Triggered t k # seg) @ b" using seg by simp
  moreover have "list_ex is_Triggered (x @ Triggered t k # seg)" by simp
  ultimately show ?thesis unfolding delivered_def by blast
qed

lemma delivered_track: "delivered b D s \<Longrightarrow> delivered b D (track t k s)"
proof (cases "activeEffect s")
  case None
  then show "delivered b D s \<Longrightarrow> delivered b D (track t k s)"
    by (simp add: track_def)
next
  case (Some e)
  assume "delivered b D s"
  then have "delivered b D (emit (Tracked e t k) s)" by (rule delivered_emit) simp
  then show "delivered b D (track t k s)"
    by (rule delivered_same[rotated]) (simp add: track_log Some)
qed

lemma delivered_get_prop: "delivered b D s \<Longrightarrow> delivered b D (snd (get_prop x k s))"
proof (induction x arbitrary: s)
  case (Raw a)
  then show ?case by simp
next
  case (Prx p t)
  have "delivered b D (track (Obj t) k (snd (get_prop t k s)))"
    using Prx by (simp add: delivered_track)
  then show ?case unfolding get_prop_Prx by (rule delivered_same[rotated]) simp
qed

lemma delivered_quiet:
  assumes "delivered b D s"
  shows "delivered b D (emit (Triggered t k) s)" "delivered b D (emit (Read c) s)"
    "delivered b D (emit (Aborted e) s)"
    "delivered b D (track t k s)" "delivered b D (snd (reactive x s))"
    "delivered b D (heap_set a k v s)"
    "delivered b D (new_effect e' g lz sch (s\<lparr>n_effects := i\<rparr>))"
    "delivered b D (new_computed g s)" "delivered b D (cache c v s)"
    "delivered b D (activate e (cleanup e (emit (Run e) s)))"
    "delivered b D (deactivate s)" "delivered b D (queueJob e s)" "delivered b D (mark_dirty c s)"
proof -
  note a = assms
  show "delivered b D (emit (Triggered t k) s)" "delivered b D (emit (Read c) s)"
    "delivered b D (emit (Aborted e) s)"
    using a by (simp_all add: delivered_emit)
  show "delivered b D (track t k s)" using a by (rule delivered_track)
  show "delivered b D (snd (reactive x s))" "delivered b D (heap_set a k v s)"
    "delivered b D (new_effect e' g lz sch (s\<lparr>n_effects := i\<rparr>))"
    "delivered b D (new_computed g s)" "delivered b D (cache c v s)"
    "delivered b D (deactivate s)" "delivered b D (queueJob e s)" "delivered b D (mark_dirty c s)"
    using a by (simp_all add: delivered_def)
  have "delivered b D (emit (Run e) s)" using a by (simp add: delivered_emit)
  then show "delivered b D (activate e (cleanup e (emit (Run e) s)))"
    by (rule delivered_same[rotated]) simp
qed

text \<open>
  A call that is not a \<open>forEach\<close> cut short by a failure hands over exactly what it is
  expected to, as long as \<open>trigger\<close> is not called.
\<close>

lemma returns_delivered:
  "returns c s r s' \<Longrightarrow> delivered b D s \<Longrightarrow>
     (\<forall>es. c = ForEach es \<longrightarrow> r \<noteq> Exc) \<longrightarrow> delivered b (D @ expected c) s'"
proof (induction arbitrary: D rule: returns.induct)
  case (Get x k s v s1 f r s')
  have "delivered b D (snd (get_prop x k s))" using Get.prems by (rule delivered_get_prop)
  then show ?case using Get by simp
next
  case (PutExc x k v s s' p)
  then show ?case by simp
next
  case (Put x k v s u s1 p r s')
  have "delivered b D s1" using Put.IH(1)[OF Put.prems] by simp
  then show ?case using Put.IH(2) by simp
next
  case (Reactive x s w s1 f r s')
  have "delivered b D (snd (reactive x s))" using Reactive.prems by (rule delivered_quiet)
  then show ?case using Reactive by simp
next
  case (EffectLazy s1 s g sch f r s')
  have "delivered b D s1" unfolding EffectLazy.hyps(1) using EffectLazy.prems by (rule delivered_quiet)
  then show ?case using EffectLazy.IH by simp
next
  case (EffectExc s1 s g sch s' f)
  have "delivered b D s1" unfolding EffectExc.hyps(1) using EffectExc.prems by (rule delivered_quiet)
  then show ?case using EffectExc.IH by simp
next
  case (Effect s1 s g sch u s2 f r s')
  have "delivered b D s1" unfolding Effect.hyps(1) using Effect.prems by (rule delivered_quiet)
  then have "delivered b D s2" using Effect.IH(1) by simp
  then show ?case using Effect.IH(2) by simp
next
  case (InvokeExc i s s' f)
  then show ?case by simp
next
  case (Invoke i s v s1 f r s')
  have "delivered b D s1" using Invoke.IH(1)[OF Invoke.prems] by simp
  then show ?case using Invoke.IH(2) by simp
next
  case (Computed f s g r s')
  have "delivered b D (new_computed g s)" using Computed.prems by (rule delivered_quiet)
  then show ?case using Computed.IH by simp
next
  case (ValueExc c s s' f)
  then show ?case by simp
next
  case (Value c s v s1 f r s')
  have "delivered b D s1" using Value.IH(1)[OF Value.prems] by simp
  then show ?case using Value.IH(2) by simp
next
  case (Try p s r1 s1 f r s')
  have "delivered b D s1" using Try.IH(1)[OF Try.prems] by simp
  then show ?case using Try.IH(2) by simp
next
  case (EffectFnExc e s s2 s3)
  have "delivered b D s2" unfolding EffectFnExc.hyps(2) using EffectFnExc.prems by (rule delivered_quiet)
  then have "delivered b D s3" using EffectFnExc.IH by simp
  then show ?case by (simp add: delivered_quiet)
next
  case (EffectFn e s s2 v s3)
  have "delivered b D s2" unfolding EffectFn.hyps(2) using EffectFn.prems by (rule delivered_quiet)
  then have "delivered b D s3" using EffectFn.IH by simp
  then show ?case by (simp add: delivered_quiet)
next
  case (TriggerNone s t k)
  then show ?case by (simp add: delivered_quiet)
next
  case (Trigger s t m k dep r s')
  have "grows (emit (Triggered t k) s) s'" using Trigger.hyps(3) by (rule returns_grows)
  with Trigger.prems have "delivered b D s'" by (rule delivered_after_trigger)
  then show ?case by simp
next
  case (ForEachExc e s s' es)
  then show ?case by simp
next
  case (ForEach e s u s1 es r s')
  have "delivered b (D @ [e]) s1" using ForEach.IH(1)[OF ForEach.prems] by simp
  then show ?case using ForEach.IH(2)[of "D @ [e]"] by simp
next
  case (DispatchUser s i f r s')
  have "delivered b (D @ [Usr i]) (emit (Dispatched (Usr i)) s)"
    using DispatchUser.prems by (rule delivered_Dispatched)
  then show ?case using DispatchUser.IH by simp
next
  case (DispatchBad s c f)
  then show ?case by (simp add: delivered_Dispatched)
next
  case (DispatchComp s e c r s')
  have "delivered b (D @ [e]) (emit (Dispatched e) s)"
    using DispatchComp.prems by (rule delivered_Dispatched)
  then have "delivered b (D @ [e]) (mark_dirty c (emit (Dispatched e) s))" by (rule delivered_quiet)
  then show ?case using DispatchComp.IH by simp
next
  case (DispatchQueue s e)
  have "delivered b (D @ [e]) (emit (Dispatched e) s)"
    using DispatchQueue.prems by (rule delivered_Dispatched)
  then have "delivered b (D @ [e]) (queueJob e (emit (Dispatched e) s))" by (rule delivered_quiet)
  then show ?case by simp
next
  case (SetRaw a k v s)
  then show ?case by (simp add: delivered_quiet)
next
  case (SetExc t k s oldValue s1 v s' p)
  have "delivered b D (snd (get_prop t k s))" using SetExc.prems by (rule delivered_get_prop)
  then show ?case using SetExc by simp
next
  case (SetSame t k s oldValue s1 v u s' p)
  have "delivered b D (snd (get_prop t k s))" using SetSame.prems by (rule delivered_get_prop)
  then show ?case using SetSame by simp
next
  case (SetTrigger t k s oldValue s1 v u s2 r s' p)
  have "delivered b D (snd (get_prop t k s))" using SetTrigger.prems by (rule delivered_get_prop)
  then have "delivered b D s2" using SetTrigger by simp
  then show ?case using SetTrigger.IH(2) by simp
next
  case (ValueClean s c s3)
  have "delivered b D (emit (Read c) s)" using ValueClean.prems by (rule delivered_quiet)
  then show ?case unfolding ValueClean.hyps(2) by (simp add: delivered_quiet)
next
  case (ValueDirtyExc s c s')
  have "delivered b D (emit (Read c) s)" using ValueDirtyExc.prems by (rule delivered_quiet)
  then show ?case using ValueDirtyExc.IH by simp
next
  case (ValueDirty s c v s1 s3)
  have "delivered b D (emit (Read c) s)" using ValueDirty.prems by (rule delivered_quiet)
  then have "delivered b D s1" using ValueDirty.IH by simp
  then show ?case unfolding ValueDirty.hyps(3) by (simp add: delivered_quiet)
qed simp_all

lemma filter_Triggered_one:
  "(length (filter is_Triggered (seg @ [Triggered t k])) = 1) = (\<not> list_ex is_Triggered seg)"
  by (auto simp: list_ex_iff filter_empty_conv)



section \<open>Computed values\<close>

lemma getter_after_read_append: "getter_after_read c (x @ y) \<Longrightarrow> getter_after_read c y"
  by (induction x) simp_all

lemma getter_after_read_mem:
  "getter_after_read c seg \<Longrightarrow> Run (Inner c) \<in> set seg \<Longrightarrow> Read c \<in> set seg"
proof (induction seg)
  case Nil
  then show ?case by simp
next
  case (Cons ev seg)
  show ?case
  proof (cases "ev = Run (Inner c)")
    case True
    then have "take 1 seg = [Read c]" using Cons.prems(1) by simp
    then have "Read c \<in> set seg" by (cases seg) simp_all
    then show ?thesis by simp
  next
    case False
    then show ?thesis using Cons by simp
  qed
qed

lemma getter_after_read_between0:
  "getter_after_read c (mid @ Dispatched (Inner c) # old) \<Longrightarrow> Read c \<notin> set mid
     \<Longrightarrow> Run (Inner c) \<notin> set mid"
proof (induction mid)
  case Nil
  then show ?case by simp
next
  case (Cons ev mid)
  have "ev \<noteq> Run (Inner c)"
  proof
    assume "ev = Run (Inner c)"
    then have "take 1 (mid @ Dispatched (Inner c) # old) = [Read c]" using Cons.prems(1) by simp
    then show False using Cons.prems(2) by (cases mid) simp_all
  qed
  then show ?case using Cons by simp
qed

lemma getter_after_read_between:
  "getter_after_read c (new @ mid @ Dispatched (Inner c) # old) \<Longrightarrow> Read c \<notin> set mid
     \<Longrightarrow> Run (Inner c) \<notin> set mid"
  using getter_after_read_append getter_after_read_between0 by blast

lemma read_driven_refl: "read_driven c (log s) (comp_dirty s c) s"
  by (simp add: read_driven_def)

lemma read_driven_suffix: "read_driven c b d0 s \<Longrightarrow> suffix b (log s)"
  by (auto simp: read_driven_def suffix_def)

lemma read_driven_same:
  "read_driven c b d0 s \<Longrightarrow> log s' = log s \<Longrightarrow> (comp_dirty s c \<longrightarrow> comp_dirty s' c)
     \<Longrightarrow> read_driven c b d0 s'"
  unfolding read_driven_def by auto

lemma read_driven_emit:
  assumes "read_driven c b d0 s" and "ev \<noteq> Run (Inner c)"
  shows "read_driven c b d0 (emit ev s)"
proof -
  obtain seg where seg: "log s = seg @ b" "getter_after_read c seg"
      "d0 \<and> \<not> comp_dirty s c \<longrightarrow> Read c \<in> set seg"
    using assms(1) unfolding read_driven_def by blast
  have "log (emit ev s) = (ev # seg) @ b" using seg(1) by simp
  moreover have "getter_after_read c (ev # seg)" using seg(2) assms(2) by simp
  moreover have "d0 \<and> \<not> comp_dirty (emit ev s) c \<longrightarrow> Read c \<in> set (ev # seg)"
    using seg(3) by simp
  ultimately show ?thesis unfolding read_driven_def by blast
qed

lemma read_driven_track: "read_driven c b d0 s \<Longrightarrow> read_driven c b d0 (track t k s)"
proof (cases "activeEffect s")
  case None
  then show "read_driven c b d0 s \<Longrightarrow> read_driven c b d0 (track t k s)"
    by (simp add: track_def)
next
  case (Some e)
  assume "read_driven c b d0 s"
  then have "read_driven c b d0 (emit (Tracked e t k) s)" by (rule read_driven_emit) simp
  then show "read_driven c b d0 (track t k s)"
    by (rule read_driven_same) (simp_all add: track_log Some)
qed

lemma read_driven_get_prop: "read_driven c b d0 s \<Longrightarrow> read_driven c b d0 (snd (get_prop x k s))"
proof (induction x arbitrary: s)
  case (Raw a)
  then show ?case by simp
next
  case (Prx p t)
  have "read_driven c b d0 (track (Obj t) k (snd (get_prop t k s)))"
    using Prx by (simp add: read_driven_track)
  then show ?case unfolding get_prop_Prx by (rule read_driven_same) simp_all
qed

lemma read_driven_quiet:
  assumes "read_driven c b d0 s"
  shows "read_driven c b d0 (emit (Triggered t k) s)" "read_driven c b d0 (emit (Read c') s)"
    "read_driven c b d0 (emit (Aborted e) s)" "read_driven c b d0 (emit (Dispatched e) s)"
    "read_driven c b d0 (emit (Job e) s)"
    "read_driven c b d0 (track t k s)" "read_driven c b d0 (snd (reactive x s))"
    "read_driven c b d0 (heap_set a k v s)"
    "read_driven c b d0 (new_effect e' g lz sch (s\<lparr>n_effects := i\<rparr>))"
    "read_driven c b d0 (new_computed g s)"
    "read_driven c b d0 (deactivate s)" "read_driven c b d0 (queueJob e s)"
    "read_driven c b d0 (mark_dirty c' s)"
    "read_driven c b d0 (s\<lparr>queue := q, isFlushing := fl\<rparr>)"
    "read_driven c b d0 (s\<lparr>microtasks := m\<rparr>)"
proof -
  note a = assms
  show "read_driven c b d0 (emit (Triggered t k) s)" "read_driven c b d0 (emit (Read c') s)"
    "read_driven c b d0 (emit (Aborted e) s)" "read_driven c b d0 (emit (Dispatched e) s)"
    "read_driven c b d0 (emit (Job e) s)"
    using a by (simp_all add: read_driven_emit)
  show "read_driven c b d0 (track t k s)" using a by (rule read_driven_track)
  show "read_driven c b d0 (snd (reactive x s))" using a by (rule read_driven_same) simp_all
  show "read_driven c b d0 (heap_set a k v s)" using a by (rule read_driven_same) simp_all
  show "read_driven c b d0 (new_effect e' g lz sch (s\<lparr>n_effects := i\<rparr>))"
    using a by (rule read_driven_same) simp_all
  show "read_driven c b d0 (new_computed g s)" using a by (rule read_driven_same) simp_all
  show "read_driven c b d0 (deactivate s)" using a by (rule read_driven_same) simp_all
  show "read_driven c b d0 (queueJob e s)" using a by (rule read_driven_same) simp_all
  show "read_driven c b d0 (mark_dirty c' s)" using a by (rule read_driven_same) simp_all
  show "read_driven c b d0 (s\<lparr>queue := q, isFlushing := fl\<rparr>)"
    using a by (rule read_driven_same) simp_all
  show "read_driven c b d0 (s\<lparr>microtasks := m\<rparr>)" using a by (rule read_driven_same) simp_all
qed

lemma read_driven_begin:
  assumes "read_driven c b d0 s"
    and "e = Inner c \<longrightarrow> (\<exists>l. log s = Read c # l) \<and> length b < length (log s)"
  shows "read_driven c b d0 (activate e (cleanup e (emit (Run e) s)))"
proof -
  obtain seg where seg: "log s = seg @ b" "getter_after_read c seg"
      "d0 \<and> \<not> comp_dirty s c \<longrightarrow> Read c \<in> set seg"
    using assms(1) unfolding read_driven_def by blast
  let ?s2 = "activate e (cleanup e (emit (Run e) s))"
  have l: "log ?s2 = (Run e # seg) @ b" using seg(1) by simp
  have d: "comp_dirty ?s2 c = comp_dirty s c" by simp
  have g: "getter_after_read c (Run e # seg)"
  proof (cases "e = Inner c")
    case False
    then show ?thesis using seg(2) by simp
  next
    case True
    then obtain l where l: "log s = Read c # l" and n: "length b < length (log s)"
      using assms(2) by blast
    have "seg \<noteq> []" using n seg(1) by auto
    then have "take 1 seg = [Read c]" using l seg(1) by (cases seg) simp_all
    then show ?thesis using seg(2) by simp
  qed
  have "d0 \<and> \<not> comp_dirty ?s2 c \<longrightarrow> Read c \<in> set (Run e # seg)" using seg(3) d by simp
  then show ?thesis unfolding read_driven_def using l g by blast
qed

lemma read_driven_pre:
  assumes "read_driven c b d0 s"
  shows "(\<exists>l. log (emit (Read c) s) = Read c # l) \<and> length b < length (log (emit (Read c) s))"
  using read_driven_suffix[OF assms] by (auto simp: suffix_def)

lemma read_driven_cache:
  assumes r1: "read_driven c b d0 s1" and g: "grows (emit (Read c') s) s1"
    and s: "read_driven c b d0 s"
  shows "read_driven c b d0 (cache c' v s1)"
proof (cases "c' = c")
  case False
  then have "c \<noteq> c'" by blast
  show ?thesis using r1 by (rule read_driven_same) (simp_all add: \<open>c \<noteq> c'\<close>)
next
  case True
  obtain seg1 where seg1: "log s1 = seg1 @ b" "getter_after_read c seg1"
    using r1 unfolding read_driven_def by blast
  obtain seg where seg: "log s = seg @ b" using s unfolding read_driven_def by blast
  obtain x where "log s1 = x @ Read c # log s" using g True by (auto simp: grows_def)
  then have "log s1 = (x @ Read c # seg) @ b" using seg by simp
  then have "seg1 = x @ Read c # seg" using seg1(1) by simp
  then have "Read c \<in> set seg1" by simp
  then show ?thesis unfolding read_driven_def using seg1 by auto
qed

lemma returns_read_driven:
  "returns c0 s r s' \<Longrightarrow> read_driven c b d0 s \<Longrightarrow>
     (c0 = EffectFn (Inner c) \<longrightarrow> (\<exists>l. log s = Read c # l) \<and> length b < length (log s))
     \<Longrightarrow> read_driven c b d0 s'"
proof (induction rule: returns.induct)
  case (Get x k s v s1 f r s')
  have "read_driven c b d0 (snd (get_prop x k s))" using Get.prems(1) by (rule read_driven_get_prop)
  then show ?case using Get by simp
next
  case (PutExc x k v s s' p)
  then show ?case by simp
next
  case (Put x k v s u s1 p r s')
  have "read_driven c b d0 s1" using Put.IH(1) Put.prems(1) by simp
  then show ?case using Put.IH(2) by simp
next
  case (Reactive x s w s1 f r s')
  have "read_driven c b d0 (snd (reactive x s))" using Reactive.prems(1) by (rule read_driven_quiet)
  then show ?case using Reactive by simp
next
  case (EffectLazy s1 s g sch f r s')
  have "read_driven c b d0 s1" unfolding EffectLazy.hyps(1)
    using EffectLazy.prems(1) by (rule read_driven_quiet)
  then show ?case using EffectLazy.IH by simp
next
  case (EffectExc s1 s g sch s' f)
  have "read_driven c b d0 s1" unfolding EffectExc.hyps(1)
    using EffectExc.prems(1) by (rule read_driven_quiet)
  then show ?case using EffectExc.IH by simp
next
  case (Effect s1 s g sch u s2 f r s')
  have "read_driven c b d0 s1" unfolding Effect.hyps(1)
    using Effect.prems(1) by (rule read_driven_quiet)
  then have "read_driven c b d0 s2" using Effect.IH(1) by simp
  then show ?case using Effect.IH(2) by simp
next
  case (InvokeExc i s s' f)
  then show ?case by simp
next
  case (Invoke i s v s1 f r s')
  have "read_driven c b d0 s1" using Invoke.IH(1) Invoke.prems(1) by simp
  then show ?case using Invoke.IH(2) by simp
next
  case (Computed f s g r s')
  have "read_driven c b d0 (new_computed g s)" using Computed.prems(1) by (rule read_driven_quiet)
  then show ?case using Computed.IH by simp
next
  case (ValueExc c' s s' f)
  then show ?case by simp
next
  case (Value c' s v s1 f r s')
  have "read_driven c b d0 s1" using Value.IH(1) Value.prems(1) by simp
  then show ?case using Value.IH(2) by simp
next
  case (Try p s r1 s1 f r s')
  have "read_driven c b d0 s1" using Try.IH(1) Try.prems(1) by simp
  then show ?case using Try.IH(2) by simp
next
  case (EffectFnExc e s s2 s3)
  have "read_driven c b d0 s2" unfolding EffectFnExc.hyps(2)
    using EffectFnExc.prems by (intro read_driven_begin) simp_all
  then have "read_driven c b d0 s3" using EffectFnExc.IH by simp
  then show ?case by (rule read_driven_quiet)
next
  case (EffectFn e s s2 v s3)
  have "read_driven c b d0 s2" unfolding EffectFn.hyps(2)
    using EffectFn.prems by (intro read_driven_begin) simp_all
  then have "read_driven c b d0 s3" using EffectFn.IH by simp
  then show ?case by (rule read_driven_quiet)
next
  case (TriggerNone s t k)
  then show ?case by (simp add: read_driven_quiet)
next
  case (Trigger s t m k dep r s')
  have "read_driven c b d0 (emit (Triggered t k) s)" using Trigger.prems(1) by (rule read_driven_quiet)
  then show ?case using Trigger.IH by simp
next
  case (ForEachExc e s s' es)
  then show ?case by simp
next
  case (ForEach e s u s1 es r s')
  have "read_driven c b d0 s1" using ForEach.IH(1) ForEach.prems(1) by simp
  then show ?case using ForEach.IH(2) by simp
next
  case (DispatchUser s i f r s')
  have "read_driven c b d0 (emit (Dispatched (Usr i)) s)"
    using DispatchUser.prems(1) by (rule read_driven_quiet)
  then show ?case using DispatchUser.IH by simp
next
  case (DispatchBad s c' f)
  then show ?case by (simp add: read_driven_quiet)
next
  case (DispatchComp s e c' r s')
  have "read_driven c b d0 (emit (Dispatched e) s)"
    using DispatchComp.prems(1) by (rule read_driven_quiet)
  then have "read_driven c b d0 (mark_dirty c' (emit (Dispatched e) s))" by (rule read_driven_quiet)
  then show ?case using DispatchComp.IH by simp
next
  case (DispatchQueue s e)
  have "read_driven c b d0 (emit (Dispatched e) s)"
    using DispatchQueue.prems(1) by (rule read_driven_quiet)
  then show ?case by (rule read_driven_quiet)
next
  case (SetRaw a k v s)
  then show ?case by (simp add: read_driven_quiet)
next
  case (SetExc t k s oldValue s1 v s' p)
  have "read_driven c b d0 (snd (get_prop t k s))" using SetExc.prems(1) by (rule read_driven_get_prop)
  then show ?case using SetExc by simp
next
  case (SetSame t k s oldValue s1 v u s' p)
  have "read_driven c b d0 (snd (get_prop t k s))" using SetSame.prems(1) by (rule read_driven_get_prop)
  then show ?case using SetSame by simp
next
  case (SetTrigger t k s oldValue s1 v u s2 r s' p)
  have "read_driven c b d0 (snd (get_prop t k s))"
    using SetTrigger.prems(1) by (rule read_driven_get_prop)
  then have "read_driven c b d0 s2" using SetTrigger by simp
  then show ?case using SetTrigger.IH(2) by simp
next
  case (ValueClean s c' s3)
  have "read_driven c b d0 (emit (Read c') s)" using ValueClean.prems(1) by (rule read_driven_quiet)
  then show ?case unfolding ValueClean.hyps(2) by (rule read_driven_quiet)
next
  case (ValueDirtyExc s c' s')
  have "read_driven c b d0 (emit (Read c') s)" using ValueDirtyExc.prems(1) by (rule read_driven_quiet)
  then show ?case using ValueDirtyExc.IH read_driven_pre[OF ValueDirtyExc.prems(1)] by simp
next
  case (ValueDirty s c' v s1 s3)
  have "read_driven c b d0 (emit (Read c') s)" using ValueDirty.prems(1) by (rule read_driven_quiet)
  then have "read_driven c b d0 s1"
    using ValueDirty.IH read_driven_pre[OF ValueDirty.prems(1)] by simp
  moreover have "grows (emit (Read c') s) s1" using ValueDirty.hyps(2) by (rule returns_grows)
  ultimately have "read_driven c b d0 (cache c' v s1)"
    using ValueDirty.prems(1) by (rule read_driven_cache)
  then show ?case unfolding ValueDirty.hyps(3) by (rule read_driven_quiet)
qed simp_all

lemma cleanup_effects_scheduler [simp]:
  "scheduler (effects (cleanup e' s) e) = scheduler (effects s e)"
  by simp

lemma marked_step:
  assumes m: "marked_by_scheduler c b d0 s"
    and n: "n_computeds s \<le> n_computeds s'"
    and e: "\<And>e. e \<noteq> Inner c \<Longrightarrow> scheduler (effects s' e) = Some (CompSched c)
               \<Longrightarrow> scheduler (effects s e) = Some (CompSched c)"
    and l: "suffix (log s) (log s')"
    and d: "comp_dirty s' c \<Longrightarrow> comp_dirty s c \<or> log s' = Dispatched (Inner c) # log s"
  shows "marked_by_scheduler c b d0 s'"
proof -
  obtain seg where seg: "log s = seg @ b" "comp_dirty s c \<longrightarrow> d0 \<or> Dispatched (Inner c) \<in> set seg"
    and c: "c < n_computeds s"
    and u: "\<forall>e. scheduler (effects s e) = Some (CompSched c) \<longrightarrow> e = Inner c"
    using m unfolding marked_by_scheduler_def by blast
  obtain x where x: "log s' = x @ log s" using l by (auto simp: suffix_def)
  then have 1: "log s' = (x @ seg) @ b" using seg(1) by simp
  have 2: "comp_dirty s' c \<longrightarrow> d0 \<or> Dispatched (Inner c) \<in> set (x @ seg)"
  proof
    assume "comp_dirty s' c"
    then consider "comp_dirty s c" | "log s' = Dispatched (Inner c) # log s" using d by blast
    then show "d0 \<or> Dispatched (Inner c) \<in> set (x @ seg)"
    proof cases
      case 1
      then show ?thesis using seg(2) by auto
    next
      case 2
      then have "x = [Dispatched (Inner c)]" using x by simp
      then show ?thesis by simp
    qed
  qed
  have 3: "\<forall>e. scheduler (effects s' e) = Some (CompSched c) \<longrightarrow> e = Inner c"
    using e u by blast
  have 4: "c < n_computeds s'" using c n by simp
  show ?thesis unfolding marked_by_scheduler_def using 1 2 3 4 by blast
qed

lemma marked_track: "marked_by_scheduler c b d0 s \<Longrightarrow> marked_by_scheduler c b d0 (track t k s)"
  by (erule marked_step) (simp_all add: track_suffix)

lemma stable_marked_by_scheduler: "stable (marked_by_scheduler c b d0)"
  unfolding stable_def stable0_def
proof (intro conjI allI impI)
  fix s t k assume "marked_by_scheduler c b d0 s"
  then show "marked_by_scheduler c b d0 (track t k s)" by (rule marked_track)
next
  fix s e c' assume m: "marked_by_scheduler c b d0 s"
    and e: "scheduler (effects s e) = Some (CompSched c')"
  have i: "c = c' \<Longrightarrow> e = Inner c" using m e unfolding marked_by_scheduler_def by blast
  show "marked_by_scheduler c b d0 (mark_dirty c' (emit (Dispatched e) s))"
    using m by (rule marked_step) (use i in \<open>auto simp: suffix_ConsI split: if_splits\<close>)
next
  fix s g assume m: "marked_by_scheduler c b d0 s"
  then have i: "c < n_computeds s" unfolding marked_by_scheduler_def by blast
  show "marked_by_scheduler c b d0 (new_computed g s)"
    using m by (rule marked_step) (use i in \<open>auto split: if_splits\<close>)
qed (erule marked_step; auto simp: suffix_ConsI split: if_splits option.splits)+

lemma stable_sched_ok: "stable sched_ok"
  unfolding stable_def stable0_def sched_ok_def
  by (auto simp: less_Suc_eq)

lemma stable_graph_sched: "stable (\<lambda>s. graph_exact s \<and> sched_ok s)"
  using stable_graph_exact stable_sched_ok unfolding stable_def stable0_def by simp

lemma computeds_okI:
  "graph_exact s \<and> sched_ok s \<Longrightarrow> \<forall>c. Inner c \<notin> set (queue s) \<Longrightarrow> computeds_ok s"
  by (simp add: computeds_ok_def)

lemma computeds_okD:
  assumes "computeds_ok s"
  shows "graph_exact s \<and> sched_ok s" "\<forall>c. Inner c \<notin> set (queue s)"
  using assms by (simp_all add: computeds_ok_def)

lemma computeds_ok_quiet:
  assumes a: "computeds_ok s"
  shows "computeds_ok (emit (Triggered t k) s)" "computeds_ok (emit (Read c) s)"
    "computeds_ok (emit (Aborted e) s)"
    "computeds_ok (track t k s)" "computeds_ok (snd (reactive x s))"
    "computeds_ok (heap_set a' k v s)"
    "computeds_ok (new_effect (Usr (n_effects s)) g lz (map_option UserSched sch)
        (s\<lparr>n_effects := Suc (n_effects s)\<rparr>))"
    "computeds_ok (new_computed g s)" "computeds_ok (cache c v s)"
    "computeds_ok (deactivate s)" "computeds_ok (snd (get_prop x k s))"
    "created e s \<Longrightarrow> computeds_ok (activate e (cleanup e (emit (Run e) s)))"
    "scheduler (effects s e) = Some (UserSched f) \<Longrightarrow> computeds_ok (emit (Dispatched e) s)"
    "scheduler (effects s e) = Some (CompSched c) \<Longrightarrow> computeds_ok (mark_dirty c (emit (Dispatched e) s))"
proof -
  note st = stable_graph_sched
  have st0: "stable0 (\<lambda>s. graph_exact s \<and> sched_ok s)" using st by (simp add: stable_def)
  note k = computeds_okD(1)[OF a]
  note q = computeds_okD(2)[OF a]
  show "computeds_ok (emit (Triggered t k) s)"
    by (rule computeds_okI, rule stableD(1)[OF st0 k]) (simp add: q)
  show "computeds_ok (emit (Read c) s)"
    by (rule computeds_okI, rule stableD(2)[OF st0 k]) (simp add: q)
  show "computeds_ok (emit (Aborted e) s)"
    using st k q by (intro computeds_okI) (simp_all add: stable_def)
  show "computeds_ok (track t k s)"
    by (rule computeds_okI, rule stableD(6)[OF st0 k]) (simp add: q)
  show "computeds_ok (snd (reactive x s))"
    by (rule computeds_okI, rule stableD(7)[OF st0 k]) (simp add: q)
  show "computeds_ok (heap_set a' k v s)"
    by (rule computeds_okI, rule stableD(8)[OF st0 k]) (simp add: q)
  show "computeds_ok (new_effect (Usr (n_effects s)) g lz (map_option UserSched sch)
        (s\<lparr>n_effects := Suc (n_effects s)\<rparr>))"
    by (rule computeds_okI, rule stableD(9)[OF st0 k]) (simp add: q)
  show "computeds_ok (new_computed g s)"
    by (rule computeds_okI, rule stableD(10)[OF st0 k]) (simp add: q)
  show "computeds_ok (cache c v s)"
    by (rule computeds_okI, rule stableD(11)[OF st0 k]) (simp add: q)
  show "computeds_ok (deactivate s)"
    using st k q by (intro computeds_okI) (simp_all add: stable_def)
  show "computeds_ok (snd (get_prop x k s))"
    by (rule computeds_okI, rule stable_get_prop[OF st0 k]) (simp add: q)
  show "created e s \<Longrightarrow> computeds_ok (activate e (cleanup e (emit (Run e) s)))"
    using st k q by (intro computeds_okI) (simp_all add: stable_def)
  show "scheduler (effects s e) = Some (UserSched f) \<Longrightarrow> computeds_ok (emit (Dispatched e) s)"
    by (rule computeds_okI, erule stableD(3)[OF st0 k]) (simp add: q)
  show "scheduler (effects s e) = Some (CompSched c) \<Longrightarrow> computeds_ok (mark_dirty c (emit (Dispatched e) s))"
    by (rule computeds_okI, erule stableD(4)[OF st0 k]) (simp add: q)
qed

lemma computeds_ok_queueJob:
  assumes a: "computeds_ok s" and n: "scheduler (effects s e) = None" and c: "created e s"
  shows "computeds_ok (queueJob e (emit (Dispatched e) s))"
proof -
  have st0: "stable0 (\<lambda>s. graph_exact s \<and> sched_ok s)"
    using stable_graph_sched by (simp add: stable_def)
  note k = computeds_okD(1)[OF a]
  note q = computeds_okD(2)[OF a]
  have "e \<noteq> Inner c'" for c'
  proof
    assume e: "e = Inner c'"
    then have "c' < n_computeds s" using c by simp
    then have "scheduler (effects s (Inner c')) = Some (CompSched c')"
      using k by (simp add: sched_ok_def)
    then show False using n e by simp
  qed
  then have "\<forall>c. Inner c \<notin> set (queue (queueJob e (emit (Dispatched e) s)))"
    using q by auto
  with stableD(5)[OF st0 k n] show ?thesis by (rule computeds_okI)
qed

lemma created_kept: "returns c0 s r s' \<Longrightarrow> created e s \<Longrightarrow> created e s'"
  using returns_stable[OF created_mono_stable[of e "scheduler (effects s e)"], of c0 s r s']
  by simp

lemma graph_dep_created:
  assumes "graph_exact s" and "e \<in> set (dep_of s t k)"
  shows "created e s"
proof (rule ccontr)
  assume "\<not> created e s"
  then have "deps (effects s e) = []" using graph_exactD(4)[OF assms(1)] by blast
  then show False using graph_exactD(1)[OF assms(1), of e t k] assms(2) by simp
qed

lemma returns_computeds_ok:
  "returns c0 s r s' \<Longrightarrow> computeds_ok s \<Longrightarrow> (\<forall>e \<in> set (expected c0). created e s)
     \<Longrightarrow> computeds_ok s'"
proof (induction rule: returns.induct)
  case (Get x k s v s1 f r s')
  have "computeds_ok (snd (get_prop x k s))" using Get.prems(1) by (rule computeds_ok_quiet)
  then show ?case using Get by simp
next
  case (PutExc x k v s s' p)
  then show ?case by simp
next
  case (Put x k v s u s1 p r s')
  have "computeds_ok s1" using Put.IH(1) Put.prems(1) by simp
  then show ?case using Put.IH(2) by simp
next
  case (Reactive x s w s1 f r s')
  have "computeds_ok (snd (reactive x s))" using Reactive.prems(1) by (rule computeds_ok_quiet)
  then show ?case using Reactive by simp
next
  case (EffectLazy s1 s g sch f r s')
  have "computeds_ok s1" unfolding EffectLazy.hyps(1)
    using EffectLazy.prems(1) by (rule computeds_ok_quiet)
  then show ?case using EffectLazy.IH by simp
next
  case (EffectExc s1 s g sch s' f)
  have "computeds_ok s1" unfolding EffectExc.hyps(1)
    using EffectExc.prems(1) by (rule computeds_ok_quiet)
  then show ?case using EffectExc.IH by simp
next
  case (Effect s1 s g sch u s2 f r s')
  have "computeds_ok s1" unfolding Effect.hyps(1)
    using Effect.prems(1) by (rule computeds_ok_quiet)
  then have "computeds_ok s2" using Effect.IH(1) by simp
  then show ?case using Effect.IH(2) by simp
next
  case (InvokeExc i s s' f)
  then show ?case by simp
next
  case (Invoke i s v s1 f r s')
  have "computeds_ok s1" using Invoke.IH(1) Invoke.prems(1) by simp
  then show ?case using Invoke.IH(2) by simp
next
  case (Computed f s g r s')
  have "computeds_ok (new_computed g s)" using Computed.prems(1) by (rule computeds_ok_quiet)
  then show ?case using Computed.IH by simp
next
  case (ValueExc c' s s' f)
  then show ?case by simp
next
  case (Value c' s v s1 f r s')
  have "computeds_ok s1" using Value.IH(1) Value.prems(1) by simp
  then show ?case using Value.IH(2) by simp
next
  case (Try p s r1 s1 f r s')
  have "computeds_ok s1" using Try.IH(1) Try.prems(1) by simp
  then show ?case using Try.IH(2) by simp
next
  case (EffectFnExc e s s2 s3)
  have "computeds_ok s2" unfolding EffectFnExc.hyps(2)
    using EffectFnExc.prems(1) EffectFnExc.hyps(1) by (rule computeds_ok_quiet)
  then have "computeds_ok s3" using EffectFnExc.IH by simp
  then show ?case by (rule computeds_ok_quiet)
next
  case (EffectFn e s s2 v s3)
  have "computeds_ok s2" unfolding EffectFn.hyps(2)
    using EffectFn.prems(1) EffectFn.hyps(1) by (rule computeds_ok_quiet)
  then have "computeds_ok s3" using EffectFn.IH by simp
  then show ?case by (rule computeds_ok_quiet)
next
  case (TriggerNone s t k)
  then show ?case by (simp add: computeds_ok_quiet)
next
  case (Trigger s t m k dep r s')
  have 0: "computeds_ok (emit (Triggered t k) s)" using Trigger.prems(1) by (rule computeds_ok_quiet)
  have "dep_of s t k = dep" using Trigger.hyps(1,2) by (simp add: dep_of_def)
  then have "\<forall>e \<in> set dep. created e s"
    using graph_dep_created[of s _ t k] computeds_okD(1)[OF Trigger.prems(1)] by blast
  then show ?case using Trigger.IH 0 by simp
next
  case (ForEachExc e s s' es)
  then show ?case by simp
next
  case (ForEach e s u s1 es r s')
  have "computeds_ok s1" using ForEach.IH(1) ForEach.prems by simp
  moreover have "\<forall>e' \<in> set es. created e' s1"
    using created_kept[OF ForEach.hyps(1)] ForEach.prems(2) by simp
  ultimately show ?case using ForEach.IH(2) by simp
next
  case (DispatchUser s i f r s')
  have "computeds_ok (emit (Dispatched (Usr i)) s)"
    using DispatchUser.prems(1) DispatchUser.hyps(1) by (rule computeds_ok_quiet)
  then show ?case using DispatchUser.IH by simp
next
  case (DispatchBad s c' f)
  show ?case using DispatchBad.prems(1) DispatchBad.hyps(1) by (rule computeds_ok_quiet)
next
  case (DispatchComp s e c' r s')
  have "computeds_ok (mark_dirty c' (emit (Dispatched e) s))"
    using DispatchComp.prems(1) DispatchComp.hyps(1) by (rule computeds_ok_quiet)
  then show ?case using DispatchComp.IH by simp
next
  case (DispatchQueue s e)
  have "created e s" using DispatchQueue.prems(2) by simp
  with DispatchQueue.prems(1) DispatchQueue.hyps(1) show ?case by (rule computeds_ok_queueJob)
next
  case (SetRaw a k v s)
  then show ?case by (simp add: computeds_ok_quiet)
next
  case (SetExc t k s oldValue s1 v s' p)
  have "computeds_ok (snd (get_prop t k s))" using SetExc.prems(1) by (rule computeds_ok_quiet)
  then show ?case using SetExc by simp
next
  case (SetSame t k s oldValue s1 v u s' p)
  have "computeds_ok (snd (get_prop t k s))" using SetSame.prems(1) by (rule computeds_ok_quiet)
  then show ?case using SetSame by simp
next
  case (SetTrigger t k s oldValue s1 v u s2 r s' p)
  have "computeds_ok (snd (get_prop t k s))"
    using SetTrigger.prems(1) by (rule computeds_ok_quiet)
  then have "computeds_ok s2" using SetTrigger by simp
  then show ?case using SetTrigger.IH(2) by simp
next
  case (ValueClean s c' s3)
  have "computeds_ok (emit (Read c') s)" using ValueClean.prems(1) by (rule computeds_ok_quiet)
  then show ?case unfolding ValueClean.hyps(2) by (rule computeds_ok_quiet)
next
  case (ValueDirtyExc s c' s')
  have "computeds_ok (emit (Read c') s)" using ValueDirtyExc.prems(1) by (rule computeds_ok_quiet)
  then show ?case using ValueDirtyExc.IH by simp
next
  case (ValueDirty s c' v s1 s3)
  have "computeds_ok (emit (Read c') s)" using ValueDirty.prems(1) by (rule computeds_ok_quiet)
  then have "computeds_ok s1" using ValueDirty.IH by simp
  then have "computeds_ok (cache c' v s1)" by (rule computeds_ok_quiet)
  then show ?case unfolding ValueDirty.hyps(3) by (rule computeds_ok_quiet)
qed simp_all

lemma computeds_ok_init: "computeds_ok init"
  using graph_exact_init by (simp add: computeds_ok_def sched_ok_def init_def)

lemma computeds_ok_record:
  assumes "computeds_ok s"
  shows "computeds_ok (emit (Job e) s)" "computeds_ok (s\<lparr>queue := [], isFlushing := fl\<rparr>)"
    "computeds_ok (s\<lparr>microtasks := m\<rparr>)"
proof -
  note k = computeds_okD(1)[OF assms]
  note q = computeds_okD(2)[OF assms]
  have "graph_exact (emit (Job e) s)" using k by (elim conjE graph_step) simp_all
  then show "computeds_ok (emit (Job e) s)" using k q by (simp add: computeds_ok_def sched_ok_def)
  have "graph_exact (s\<lparr>queue := [], isFlushing := fl\<rparr>)"
    using k by (elim conjE graph_step) (simp_all add: dep_of_def)
  then show "computeds_ok (s\<lparr>queue := [], isFlushing := fl\<rparr>)"
    using k by (simp add: computeds_ok_def sched_ok_def)
  have "graph_exact (s\<lparr>microtasks := m\<rparr>)"
    using k by (elim conjE graph_step) (simp_all add: dep_of_def)
  then show "computeds_ok (s\<lparr>microtasks := m\<rparr>)"
    using k q by (simp add: computeds_ok_def sched_ok_def)
qed

lemma marked_record:
  assumes "marked_by_scheduler c b d0 s"
  shows "marked_by_scheduler c b d0 (emit (Job e) s)"
    "marked_by_scheduler c b d0 (s\<lparr>queue := q, isFlushing := fl\<rparr>)"
    "marked_by_scheduler c b d0 (s\<lparr>microtasks := m\<rparr>)"
  using assms by (auto elim!: marked_step simp: suffix_ConsI)

text \<open>A job of the flush is never the internal effect of a computed.\<close>

lemma flush_jobs_lazy:
  "flush_jobs n i s = Some (r, s') \<Longrightarrow> computeds_ok s \<Longrightarrow> read_driven c b d0 s
     \<Longrightarrow> computeds_ok s' \<and> read_driven c b d0 s'"
proof (induction n arbitrary: i s)
  case 0
  then show ?case by simp
next
  case (Suc n)
  show ?case
  proof (cases "i < length (queue s)")
    case False
    with Suc.prems show ?thesis by simp
  next
    case True
    let ?e = "queue s ! i"
    let ?s0 = "emit (Job ?e) s"
    have "?e \<in> set (queue s)" using True by simp
    then have ne: "EffectFn ?e \<noteq> EffectFn (Inner c)"
      using computeds_okD(2)[OF Suc.prems(2)] by auto
    have k0: "computeds_ok ?s0" using Suc.prems(2) by (rule computeds_ok_record)
    have r0: "read_driven c b d0 ?s0" using Suc.prems(3) by (rule read_driven_quiet)
    have step: "computeds_ok s1 \<and> read_driven c b d0 s1"
      if "effectFn n ?e ?s0 = Some (r1, s1)" for r1 s1
    proof -
      have ret: "returns (EffectFn ?e) ?s0 r1 s1" using that by (rule run_returns)
      have "computeds_ok s1" using returns_computeds_ok[OF ret k0] by simp
      moreover have "read_driven c b d0 s1" using returns_read_driven[OF ret r0] ne by simp
      ultimately show ?thesis by simp
    qed
    from Suc.prems(1) True
    have "bind (effectFn n ?e ?s0) (\<lambda>_ s1. flush_jobs n (Suc i) s1) = Some (r, s')"
      by simp
    then show ?thesis
    proof (cases rule: bind_SomeE)
      case 1
      then show ?thesis using step by blast
    next
      case (2 v s1)
      then show ?thesis using Suc.IH step by blast
    qed
  qed
qed

lemma flush_lazy:
  assumes "flush n s = Some (r, s')" and "computeds_ok s" and "read_driven c b d0 s"
  shows "computeds_ok s' \<and> read_driven c b d0 s'"
  using assms(1)
proof (cases rule: flush_cases)
  case failed
  then show ?thesis using flush_jobs_lazy assms(2,3) by blast
next
  case (completed v sf)
  have "computeds_ok sf \<and> read_driven c b d0 sf"
    using flush_jobs_lazy[OF completed(1) assms(2,3)] .
  then show ?thesis unfolding completed(2)
    by (simp add: computeds_ok_record read_driven_quiet)
qed

lemma run_microtasks_lazy:
  "run_microtasks n s = Some s' \<Longrightarrow> computeds_ok s \<Longrightarrow> read_driven c b d0 s
     \<Longrightarrow> computeds_ok s' \<and> read_driven c b d0 s'"
proof (induction n arbitrary: s)
  case 0
  then show ?case by simp
next
  case (Suc n)
  show ?case
  proof (cases "microtasks s = 0")
    case True
    then show ?thesis using Suc.prems by simp
  next
    case False
    let ?s0 = "s\<lparr>microtasks := microtasks s - 1\<rparr>"
    have k0: "computeds_ok ?s0" using Suc.prems(2) by (rule computeds_ok_record)
    have r0: "read_driven c b d0 ?s0" using Suc.prems(3) by (rule read_driven_quiet)
    obtain r s1 where f: "flush n ?s0 = Some (r, s1)" and m: "run_microtasks n s1 = Some s'"
      using Suc.prems(1) False by (auto split: option.splits)
    show ?thesis using Suc.IH[OF m] flush_lazy[OF f k0 r0] by simp
  qed
qed

lemma run_microtasks_marked:
  "run_microtasks n s = Some s' \<Longrightarrow> marked_by_scheduler c b d0 s
     \<Longrightarrow> marked_by_scheduler c b d0 s'"
proof (induction n arbitrary: s)
  case 0
  then show ?case by simp
next
  case (Suc n)
  show ?case
  proof (cases "microtasks s = 0")
    case True
    then show ?thesis using Suc.prems by simp
  next
    case False
    let ?s0 = "s\<lparr>microtasks := microtasks s - 1\<rparr>"
    have m0: "marked_by_scheduler c b d0 ?s0" using Suc.prems(2) by (rule marked_record)
    obtain r s1 where f: "flush n ?s0 = Some (r, s1)" and m: "run_microtasks n s1 = Some s'"
      using Suc.prems(1) False by (auto split: option.splits)
    have j: "\<And>s e. marked_by_scheduler c b d0 s \<Longrightarrow> marked_by_scheduler c b d0 (emit (Job e) s)"
      by (rule marked_record)
    have "marked_by_scheduler c b d0 s1"
      using f
    proof (cases rule: flush_cases)
      case failed
      then show ?thesis using flush_jobs_stable[OF stable_marked_by_scheduler j] m0 by blast
    next
      case (completed v sf)
      have "marked_by_scheduler c b d0 sf"
        using flush_jobs_stable[OF stable_marked_by_scheduler j completed(1) m0] .
      then show ?thesis unfolding completed(2) by (rule marked_record)
    qed
    then show ?thesis using Suc.IH[OF m] by simp
  qed
qed

lemma marked_start:
  "computeds_ok s \<Longrightarrow> c < n_computeds s \<Longrightarrow> marked_by_scheduler c (log s) (comp_dirty s c) s"
  by (auto simp: computeds_ok_def sched_ok_def marked_by_scheduler_def)

lemma marked_created: "marked_by_scheduler c b d0 s \<Longrightarrow> c < n_computeds s"
  by (simp add: marked_by_scheduler_def)

text \<open>What the two invariants say of an extent that began in \<open>a\<close> and ended in \<open>z\<close>.\<close>

lemma lazy_extent:
  assumes r: "read_driven c (log a) (comp_dirty a c) z"
    and m: "marked_by_scheduler c (log a) (comp_dirty a c) z"
  shows "(\<not> comp_dirty a c \<and> comp_dirty z c \<longrightarrow> Dispatched (Inner c) \<in> set (since a z)) \<and>
         (comp_dirty a c \<and> \<not> comp_dirty z c \<longrightarrow> Read c \<in> set (since a z)) \<and>
         getter_after_read c (since a z)"
proof -
  obtain seg where seg: "log z = seg @ log a" "getter_after_read c seg"
      "comp_dirty a c \<and> \<not> comp_dirty z c \<longrightarrow> Read c \<in> set seg"
    using r unfolding read_driven_def by blast
  obtain seg' where seg': "log z = seg' @ log a"
      "comp_dirty z c \<longrightarrow> comp_dirty a c \<or> Dispatched (Inner c) \<in> set seg'"
    using m unfolding marked_by_scheduler_def by blast
  have 1: "since a z = seg" using seg(1) by (rule grows_since)
  have 2: "since a z = seg'" using seg'(1) by (rule grows_since)
  show ?thesis using seg(2,3) seg'(2) 1 2 by auto
qed

lemma read_driven_log: "read_driven c [] False s = getter_after_read c (log s)"
  by (simp add: read_driven_def)

text \<open>
  C5. A computed is made dirty. In a state of the engine (\<open>computeds_ok\<close> holds when the
  module is loaded and every task keeps it), take a computed \<open>c\<close> that exists, any code
  \<open>p\<close> and the microtasks that follow it. In each of the two extents, the code and the
  microtasks:
  \<^item> if \<open>dirty\<close> went from false to true, \<open>trigger\<close> handed over the internal effect of
    \<open>c\<close>, that is, called its scheduler;
  \<^item> if \<open>dirty\<close> went from true to false, \<^verbatim>\<open>.value\<close> was read;
  \<^item> every run of the getter comes right after a read of \<^verbatim>\<open>.value\<close> (the log is newest
    first).

  The last holds of the whole history, so between a call of the scheduler and the next
  read of \<^verbatim>\<open>.value\<close> the getter is not run. A read of \<^verbatim>\<open>.value\<close> when \<open>dirty\<close> is false
  returns the cached value and changes nothing but the subscription of the reader.
\<close>

theorem computed_is_lazy:
  assumes "computeds_ok s" and "c < n_computeds s"
    and "exec n p s = Some (r, s1)" and "run_microtasks n' s1 = Some s'"
  shows "comp_dirty (new_computed g s) (n_computeds s)
       \<and> (\<forall>(a, z) \<in> {(s, s1), (s1, s')}.
            (\<not> comp_dirty a c \<and> comp_dirty z c \<longrightarrow> Dispatched (Inner c) \<in> set (since a z)) \<and>
            (comp_dirty a c \<and> \<not> comp_dirty z c \<longrightarrow> Read c \<in> set (since a z)) \<and>
            getter_after_read c (since a z))
       \<and> (getter_after_read c (log s) \<longrightarrow>
            getter_after_read c (log s') \<and>
            (\<forall>new mid old. log s' = new @ mid @ Dispatched (Inner c) # old
                \<longrightarrow> Read c \<notin> set mid \<longrightarrow> Run (Inner c) \<notin> set mid))
       \<and> (\<not> comp_dirty s c \<longrightarrow>
            computed_value (Suc m) c s =
              Some (Normal (comp_value s c), track (Cmp c) ''value'' (emit (Read c) s)))
       \<and> computeds_ok init \<and> computeds_ok s'"
proof -
  have ret: "returns (Exec p) s r s1" using assms(3) by (rule run_returns)
  have pre: "Exec p \<noteq> EffectFn (Inner c)" by simp
  have k1: "computeds_ok s1" using returns_computeds_ok[OF ret assms(1)] by simp
  have r1: "read_driven c b d0 s1" if "read_driven c b d0 s" for b d0
    using returns_read_driven[OF ret that] by simp
  have m1: "marked_by_scheduler c (log s) (comp_dirty s c) s1"
    using returns_stable[OF stable_marked_by_scheduler ret marked_start[OF assms(1,2)]] .
  have c1: "c < n_computeds s1" using m1 by (rule marked_created)
  have e1: "(\<not> comp_dirty s c \<and> comp_dirty s1 c \<longrightarrow> Dispatched (Inner c) \<in> set (since s s1)) \<and>
            (comp_dirty s c \<and> \<not> comp_dirty s1 c \<longrightarrow> Read c \<in> set (since s s1)) \<and>
            getter_after_read c (since s s1)"
    using r1[OF read_driven_refl] m1 by (rule lazy_extent)
  have k2: "computeds_ok s'" "read_driven c b d0 s'" if "read_driven c b d0 s1" for b d0
    using run_microtasks_lazy[OF assms(4) k1 that] by simp_all
  have e2: "(\<not> comp_dirty s1 c \<and> comp_dirty s' c \<longrightarrow> Dispatched (Inner c) \<in> set (since s1 s')) \<and>
            (comp_dirty s1 c \<and> \<not> comp_dirty s' c \<longrightarrow> Read c \<in> set (since s1 s')) \<and>
            getter_after_read c (since s1 s')"
    using k2(2)[OF read_driven_refl] run_microtasks_marked[OF assms(4) marked_start[OF k1 c1]]
    by (rule lazy_extent)
  have w: "getter_after_read c (log s')" if "getter_after_read c (log s)"
  proof -
    have "read_driven c [] False s" using that by (simp add: read_driven_log)
    then have "read_driven c [] False s'" by (intro k2(2) r1)
    then show ?thesis by (simp add: read_driven_log)
  qed
  have b: "Run (Inner c) \<notin> set mid"
    if "getter_after_read c (log s)" "log s' = new @ mid @ Dispatched (Inner c) # old"
      "Read c \<notin> set mid" for new mid old
    using getter_after_read_between[of c new mid old] w[OF that(1)] that(2,3) by simp
  have v: "computed_value (Suc m) c s =
      Some (Normal (comp_value s c), track (Cmp c) ''value'' (emit (Read c) s))"
    if "\<not> comp_dirty s c"
    using that by (simp add: Let_def)
  have d: "comp_dirty (new_computed g s) (n_computeds s)" by simp
  have k: "computeds_ok s'" using k2(1)[OF r1[OF read_driven_refl]] .
  show ?thesis using d e1 e2 w b v k computeds_ok_init by (simp; blast)
qed

text \<open>
  A computed of \<^verbatim>\<open>w.a\<close> and an effect that reads it. Writing \<^verbatim>\<open>w.a\<close> makes the computed
  dirty through its scheduler and queues the effect; the getter runs again only when the
  flush runs the effect, which reads \<^verbatim>\<open>.value\<close>.
\<close>

theorem computed_is_lazy_witness:
  "computeds_ok c5_state \<and> 0 < n_computeds c5_state
   \<and> exec 20 c5_write c5_state = Some (Normal VUndef, c5_written)
   \<and> run_microtasks 20 c5_written = Some c5_end
   \<and> \<not> comp_dirty c5_state 0 \<and> comp_dirty c5_written 0
   \<and> Dispatched (Inner 0) \<in> set (since c5_state c5_written)
   \<and> Run (Inner 0) \<notin> set (since c5_state c5_written)
   \<and> \<not> comp_dirty c5_end 0 \<and> Read 0 \<in> set (since c5_written c5_end)
   \<and> getter_after_read 0 (since c5_state c5_written)
   \<and> getter_after_read 0 (since c5_written c5_end)
   \<and> getter_after_read 0 (log c5_state) \<and> getter_after_read 0 (log c5_end)
   \<and> computed_value (Suc 0) 0 c5_state =
        Some (Normal (VNum 1), track (Cmp 0) ''value'' (emit (Read 0) c5_state))
   \<and> comp_value c5_end 0 = VNum 2
   \<and> computeds_ok c5_end"
proof -
  have "exec 20 c5_setup init = Some (Normal VUndef, c5_state)"
    by (rule the_SomeI2) (simp_all add: c5_state_def c5_setup_def model_defs)
  then have "returns (Exec c5_setup) init (Normal VUndef) c5_state" by (rule run_returns)
  then have k: "computeds_ok c5_state" using returns_computeds_ok computeds_ok_init by simp
  have c: "0 < n_computeds c5_state" by (simp add: c5_state_def c5_setup_def model_defs)
  have w: "exec 20 c5_write c5_state = Some (Normal VUndef, c5_written)"
    by (rule the_SomeI2)
       (simp_all add: c5_written_def c5_write_def c5_state_def c5_setup_def model_defs)
  have "run_microtasks 20 c5_written \<noteq> None"
    by (simp add: c5_written_def c5_write_def c5_state_def c5_setup_def model_defs)
  then have m: "run_microtasks 20 c5_written = Some c5_end" unfolding c5_end_def by simp
  have d: "\<not> comp_dirty c5_state 0" "comp_value c5_state 0 = VNum 1"
    "getter_after_read 0 (log c5_state)"
    by (simp_all add: c5_state_def c5_setup_def model_defs)
  have d1: "comp_dirty c5_written 0" "Run (Inner 0) \<notin> set (since c5_state c5_written)"
    by (simp_all add: since_def c5_written_def c5_write_def c5_state_def c5_setup_def model_defs)
  have d2: "\<not> comp_dirty c5_end 0" "comp_value c5_end 0 = VNum 2"
    by (simp_all add: c5_end_def c5_written_def c5_write_def c5_state_def c5_setup_def model_defs)
  show ?thesis
    using computed_is_lazy[OF k c w m, of Throw 0] k c w m d d1 d2 by simp
qed

section \<open>The reads of an effect function\<close>

lemma reads_Exec [simp]:
  "reads (Suc n) owner (Exec (Ret v)) s = []"
  "reads (Suc n) owner (Exec Throw) s = []"
  "reads (Suc n) owner (Exec (Get x k f)) s =
     (case get_prop x k s of (v, s1) \<Rightarrow> by_owner owner k (trapped x) @ reads n owner (Exec (f v)) s1)"
  "reads (Suc n) owner (Exec (Put x k v p)) s =
     reads n owner (SetProp x k v) s
     @ and_then (run n (SetProp x k v) s) (\<lambda>_ s1. reads n owner (Exec p) s1)"
  "reads (Suc n) owner (Exec (Reactive x g)) s =
     (case reactive x s of (w, s1) \<Rightarrow> reads n owner (Exec (g w)) s1)"
  "reads (Suc n) owner (Exec (Effect q lz sch h)) s =
     (let i = n_effects s;
          s1 = new_effect (Usr i) q lz (map_option UserSched sch) (s\<lparr>n_effects := Suc i\<rparr>)
      in if \<not> lz
         then reads n owner (EffectFn (Usr i)) s1
              @ and_then (run n (EffectFn (Usr i)) s1) (\<lambda>_ s2. reads n owner (Exec (h i)) s2)
         else reads n owner (Exec (h i)) s1)"
  "reads (Suc n) owner (Exec (Invoke i f)) s =
     reads n owner (EffectFn (Usr i)) s
     @ and_then (run n (EffectFn (Usr i)) s) (\<lambda>v s1. reads n owner (Exec (f v)) s1)"
  "reads (Suc n) owner (Exec (Computed q h)) s = reads n owner (Exec (h (n_computeds s))) (new_computed q s)"
  "reads (Suc n) owner (Exec (Value c f)) s =
     (if c < n_computeds s
      then reads n owner (ComputedValue c) s
           @ and_then (run n (ComputedValue c) s) (\<lambda>v s1. reads n owner (Exec (f v)) s1)
      else [])"
  "reads (Suc n) owner (Exec (Try p r)) s =
     reads n owner (Exec p) s
     @ (case run n (Exec p) s of None \<Rightarrow> [] | Some (o1, s1) \<Rightarrow> reads n owner (Exec (r o1)) s1)"
  by simp_all

lemma reads_EffectFn [simp]:
  "reads (Suc n) owner (EffectFn e) s =
     (if \<not> created e s then []
      else
        (let s2 = activate e (cleanup e (emit (Run e) s))
         in reads n (Some e) (Exec (fn (effects s2 e))) s2))"
  by simp

lemma reads_Trigger [simp]:
  "reads (Suc n) owner (Trigger t k) s =
     (let s0 = emit (Triggered t k) s
      in case targetMap s0 t of
           None \<Rightarrow> []
         | Some depsMap \<Rightarrow>
             (case depsMap k of None \<Rightarrow> [] | Some dep \<Rightarrow> reads n owner (ForEach dep) s0))"
  by simp

lemma reads_ForEach [simp]:
  "reads (Suc n) owner (ForEach []) s = []"
  "reads (Suc n) owner (ForEach (e # es)) s =
     reads n owner (Dispatch e) s
     @ and_then (run n (Dispatch e) s) (\<lambda>_ s1. reads n owner (ForEach es) s1)"
  by simp_all

lemma reads_Dispatch [simp]:
  "reads (Suc n) owner (Dispatch e) s =
     (let s0 = emit (Dispatched e) s
      in case scheduler (effects s0 e) of
           Some (UserSched f) \<Rightarrow>
             (case e of Usr i \<Rightarrow> reads n owner (Exec (f i)) s0 | Inner c \<Rightarrow> [])
         | Some (CompSched c) \<Rightarrow> reads n owner (Trigger (Cmp c) ''value'') (mark_dirty c s0)
         | None \<Rightarrow> [])"
  by simp

lemma reads_SetProp [simp]:
  "reads (Suc n) owner (SetProp (Raw a) k v) s = []"
  "reads (Suc n) owner (SetProp (Prx p t) k v) s =
     (case get_prop t k s of
        (oldValue, s1) \<Rightarrow>
          by_owner owner k (trapped t)
          @ reads n owner (SetProp t k v) s1
          @ and_then (run n (SetProp t k v) s1)
              (\<lambda>_ s2. if \<not> strict_eq oldValue v then reads n owner (Trigger (Obj t) k) s2 else []))"
  by simp_all

lemma reads_ComputedValue [simp]:
  "reads (Suc n) owner (ComputedValue c) s =
     (let s0 = emit (Read c) s
      in if comp_dirty s0 c
         then reads n owner (EffectFn (Inner c)) s0
              @ and_then (run n (EffectFn (Inner c)) s0) (\<lambda>_ s1. by_owner owner ''value'' [Cmp c])
         else by_owner owner ''value'' [Cmp c])"
  by simp

declare reads.simps(2) [simp del]

lemma tracked_simps [simp]:
  "tracked [] = []"
  "tracked (Tracked e t k # seg) = tracked seg @ [(e, t, k)]"
  "tracked (Run e # seg) = tracked seg"
  "tracked (Aborted e # seg) = tracked seg"
  "tracked (Triggered t k # seg) = tracked seg"
  "tracked (Dispatched e # seg) = tracked seg"
  "tracked (Job e # seg) = tracked seg"
  "tracked (Read c # seg) = tracked seg"
  "tracked (seg @ seg') = tracked seg' @ tracked seg"
  by (simp_all add: tracked_def)

lemma tracked_mem: "((e, t, k) \<in> set (tracked seg)) = (Tracked e t k \<in> set seg)"
proof (induction seg)
  case Nil
  then show ?case by simp
next
  case (Cons ev seg)
  then show ?case by (cases ev) auto
qed

lemma by_owner_simps [simp]:
  "by_owner None k ts = []"
  "by_owner (Some e) k ts = map (\<lambda>t. (e, t, k)) ts"
  "by_owner owner k [] = []"
  "by_owner owner k (ts @ ts') = by_owner owner k ts @ by_owner owner k ts'"
  by (simp_all add: by_owner_def split: option.splits)

lemma and_then_simps [simp]:
  "and_then None f = []"
  "and_then (Some (Exc, s)) f = []"
  "and_then (Some (Normal v, s)) f = f v s"
  by (simp_all add: and_then_def)

lemma attributed_top: "attributed owner st b R s \<Longrightarrow> top st = owner"
  by (simp add: attributed_def)

lemma attributed_start:
  "activeEffect s = top (effectStack s) \<Longrightarrow> attributed (activeEffect s) (effectStack s) (log s) [] s"
  by (simp add: attributed_def)

lemma attributed_same:
  assumes "attributed owner st b R s"
    and "log s' = log s" and "activeEffect s' = activeEffect s" and "effectStack s' = effectStack s"
  shows "attributed owner st b R s'"
  using assms unfolding attributed_def by simp

lemma attributed_emit:
  assumes "attributed owner st b R s" and "\<And>e t k. ev \<noteq> Tracked e t k"
  shows "attributed owner st b R (emit ev s)"
proof -
  obtain seg where t: "top st = owner" and seg: "log s = seg @ b"
      "\<not> list_ex is_Aborted seg \<longrightarrow> tracked seg = R \<and> activeEffect s = owner \<and> effectStack s = st"
    using assms(1) unfolding attributed_def by blast
  have "log (emit ev s) = (ev # seg) @ b" using seg(1) by simp
  moreover have "\<not> list_ex is_Aborted (ev # seg) \<longrightarrow>
      tracked (ev # seg) = R \<and> activeEffect (emit ev s) = owner \<and> effectStack (emit ev s) = st"
    using seg(2) assms(2) by (cases ev) auto
  ultimately show ?thesis unfolding attributed_def using t by blast
qed

lemma attributed_aborted:
  assumes "attributed owner' st' b R' s" and "top st = owner"
  shows "attributed owner st b R (emit (Aborted e) s)"
proof -
  obtain seg where seg: "log s = seg @ b" using assms(1) unfolding attributed_def by blast
  have "log (emit (Aborted e) s) = (Aborted e # seg) @ b" using seg by simp
  moreover have "list_ex is_Aborted (Aborted e # seg)" by simp
  ultimately show ?thesis unfolding attributed_def using assms(2) by blast
qed

lemma attributed_track:
  assumes "attributed owner st b R s"
  shows "attributed owner st b (R @ by_owner owner k [t]) (track t k s)"
proof -
  obtain seg where tp: "top st = owner" and seg: "log s = seg @ b"
      "\<not> list_ex is_Aborted seg \<longrightarrow> tracked seg = R \<and> activeEffect s = owner \<and> effectStack s = st"
    using assms(1) unfolding attributed_def by blast
  show ?thesis
  proof (cases "activeEffect s")
    case None
    then have "track t k s = s" by (simp add: track_def)
    moreover have "\<not> list_ex is_Aborted seg \<longrightarrow>
        tracked seg = R @ by_owner owner k [t] \<and> activeEffect s = owner \<and> effectStack s = st"
      using seg(2) None by auto
    ultimately show ?thesis unfolding attributed_def using tp seg(1) by auto
  next
    case (Some e)
    have "log (track t k s) = (Tracked e t k # seg) @ b" using seg(1) Some by (simp add: track_log)
    moreover have "\<not> list_ex is_Aborted (Tracked e t k # seg) \<longrightarrow>
        tracked (Tracked e t k # seg) = R @ by_owner owner k [t]
        \<and> activeEffect (track t k s) = owner \<and> effectStack (track t k s) = st"
      using seg(2) Some by auto
    ultimately show ?thesis unfolding attributed_def using tp by blast
  qed
qed

lemma deep_same [simp]:
  "log (snd (deep v s)) = log s" "activeEffect (snd (deep v s)) = activeEffect s"
  "effectStack (snd (deep v s)) = effectStack s"
  by (cases v; simp add: deep_def reactive_def)+

lemma attributed_get_prop:
  "attributed owner st b R s
     \<Longrightarrow> attributed owner st b (R @ by_owner owner k (trapped x)) (snd (get_prop x k s))"
proof (induction x arbitrary: R s)
  case (Raw a)
  then show ?case by simp
next
  case (Prx p t)
  have "attributed owner st b (R @ by_owner owner k (trapped t)) (snd (get_prop t k s))"
    using Prx by simp
  then have "attributed owner st b ((R @ by_owner owner k (trapped t)) @ by_owner owner k [Obj t])
      (track (Obj t) k (snd (get_prop t k s)))"
    by (rule attributed_track)
  then have "attributed owner st b ((R @ by_owner owner k (trapped t)) @ by_owner owner k [Obj t])
      (snd (get_prop (Prx p t) k s))"
    unfolding get_prop_Prx by (rule attributed_same) simp_all
  then show ?case by simp
qed

lemma attributed_enter:
  assumes "attributed owner st b R s"
  shows "attributed (Some e) (st @ [e]) b R (activate e (cleanup e (emit (Run e) s)))"
proof -
  obtain seg where seg: "log s = seg @ b"
      "\<not> list_ex is_Aborted seg \<longrightarrow> tracked seg = R \<and> activeEffect s = owner \<and> effectStack s = st"
    using assms(1) unfolding attributed_def by blast
  let ?s2 = "activate e (cleanup e (emit (Run e) s))"
  have "log ?s2 = (Run e # seg) @ b" using seg(1) by simp
  moreover have "\<not> list_ex is_Aborted (Run e # seg) \<longrightarrow>
      tracked (Run e # seg) = R \<and> activeEffect ?s2 = Some e \<and> effectStack ?s2 = st @ [e]"
    using seg(2) by simp
  moreover have "top (st @ [e]) = Some e" by (simp add: top_def)
  ultimately show ?thesis unfolding attributed_def by blast
qed

lemma attributed_leave:
  assumes "attributed (Some e) (st @ [e]) b R s" and "top st = owner"
  shows "attributed owner st b R (deactivate s)"
proof -
  obtain seg where seg: "log s = seg @ b"
      "\<not> list_ex is_Aborted seg \<longrightarrow> tracked seg = R \<and> activeEffect s = Some e \<and> effectStack s = st @ [e]"
    using assms(1) unfolding attributed_def by blast
  have "log (deactivate s) = seg @ b" using seg(1) by simp
  moreover have "\<not> list_ex is_Aborted seg \<longrightarrow>
      tracked seg = R \<and> activeEffect (deactivate s) = owner \<and> effectStack (deactivate s) = st"
    using seg(2) assms(2) by simp
  ultimately show ?thesis unfolding attributed_def using assms(2) by blast
qed

lemma attributed_bind:
  assumes b: "bind (run n c1 s) f = Some (r, s')"
    and 1: "\<And>r1 s1. run n c1 s = Some (r1, s1) \<Longrightarrow> attributed owner st b R1 s1"
    and 2: "\<And>v s1. run n c1 s = Some (Normal v, s1) \<Longrightarrow> f v s1 = Some (r, s')
              \<Longrightarrow> attributed owner st b R1 s1 \<Longrightarrow> attributed owner st b (R1 @ g v s1) s'"
  shows "attributed owner st b (R1 @ and_then (run n c1 s) g) s'"
  using b
proof (cases rule: bind_SomeE)
  case 1
  then show ?thesis using assms(2) by simp
next
  case (2 v s1)
  then show ?thesis using assms(2,3) by simp
qed

text \<open>
  As long as no effect function fails, \<^verbatim>\<open>track\<close> registers each read for the effect
  whose function made it.
\<close>

lemma run_attributed:
  "run n c s = Some (r, s') \<Longrightarrow> attributed owner st b R s
     \<Longrightarrow> attributed owner st b (R @ reads n owner c s) s'"
proof (induction n arbitrary: c s r s' owner st R)
  case 0
  then show ?case by simp
next
  case (Suc n)
  note IH = Suc.IH and run = Suc.prems(1) and a = Suc.prems(2)
  show ?case
  proof (cases c)
    case (Exec p)
    show ?thesis
    proof (cases p)
      case (Ret v)
      then show ?thesis using run a Exec by simp
    next
      case Throw
      then show ?thesis using run a Exec by simp
    next
      case (Get x k f)
      obtain v s1 where g: "get_prop x k s = (v, s1)" by fastforce
      have 1: "attributed owner st b (R @ by_owner owner k (trapped x)) s1"
        using attributed_get_prop[OF a, of k x] g by simp
      have 2: "run n (Exec (f v)) s1 = Some (r, s')" using run Exec Get g by simp
      show ?thesis using IH[OF 2 1] Exec Get g by simp
    next
      case (Put x k v p)
      have "bind (set_prop n x k v s) (\<lambda>_ s1. exec n p s1) = Some (r, s')"
        using run Exec Put by simp
      then have "attributed owner st b
          ((R @ reads n owner (SetProp x k v) s)
           @ and_then (set_prop n x k v s) (\<lambda>_ s1. reads n owner (Exec p) s1)) s'"
        by (rule attributed_bind) (use IH a in blast)+
      then show ?thesis using Exec Put by simp
    next
      case (Reactive x g)
      have 1: "attributed owner st b R (snd (reactive x s))"
        using a by (rule attributed_same) simp_all
      have 2: "run n (Exec (g (fst (reactive x s)))) (snd (reactive x s)) = Some (r, s')"
        using run Exec Reactive by (simp add: case_prod_beta)
      show ?thesis using IH[OF 2 1] Exec Reactive by (simp add: case_prod_beta)
    next
      case (Effect q lz sch h)
      let ?s1 = "new_effect (Usr (n_effects s)) q lz (map_option UserSched sch)
                   (s\<lparr>n_effects := Suc (n_effects s)\<rparr>)"
      have 1: "attributed owner st b R ?s1" using a by (rule attributed_same) simp_all
      show ?thesis
      proof (cases lz)
        case True
        have 2: "run n (Exec (h (n_effects s))) ?s1 = Some (r, s')"
          using run Exec Effect True by (simp add: Let_def)
        show ?thesis using IH[OF 2 1] Exec Effect True by (simp add: Let_def)
      next
        case False
        have "bind (effectFn n (Usr (n_effects s)) ?s1) (\<lambda>_ s2. exec n (h (n_effects s)) s2)
            = Some (r, s')"
          using run Exec Effect False by (simp add: Let_def)
        then have "attributed owner st b
            ((R @ reads n owner (EffectFn (Usr (n_effects s))) ?s1)
             @ and_then (effectFn n (Usr (n_effects s)) ?s1)
                 (\<lambda>_ s2. reads n owner (Exec (h (n_effects s))) s2)) s'"
          by (rule attributed_bind) (use IH 1 in blast)+
        then show ?thesis using Exec Effect False by (simp add: Let_def)
      qed
    next
      case (Invoke i f)
      have "bind (effectFn n (Usr i) s) (\<lambda>v s1. exec n (f v) s1) = Some (r, s')"
        using run Exec Invoke by simp
      then have "attributed owner st b
          ((R @ reads n owner (EffectFn (Usr i)) s)
           @ and_then (effectFn n (Usr i) s) (\<lambda>v s1. reads n owner (Exec (f v)) s1)) s'"
        by (rule attributed_bind) (use IH a in blast)+
      then show ?thesis using Exec Invoke by simp
    next
      case (Computed q h)
      have 1: "attributed owner st b R (new_computed q s)"
        using a by (rule attributed_same) simp_all
      have 2: "run n (Exec (h (n_computeds s))) (new_computed q s) = Some (r, s')"
        using run Exec Computed by simp
      show ?thesis using IH[OF 2 1] Exec Computed by simp
    next
      case (Value c' f)
      show ?thesis
      proof (cases "c' < n_computeds s")
        case False
        then show ?thesis using run a Exec Value by simp
      next
        case True
        have "bind (computed_value n c' s) (\<lambda>v s1. exec n (f v) s1) = Some (r, s')"
          using run Exec Value True by simp
        then have "attributed owner st b
            ((R @ reads n owner (ComputedValue c') s)
             @ and_then (computed_value n c' s) (\<lambda>v s1. reads n owner (Exec (f v)) s1)) s'"
          by (rule attributed_bind) (use IH a in blast)+
        then show ?thesis using Exec Value True by simp
      qed
    next
      case (Try q h)
      obtain r1 s1 where 1: "exec n q s = Some (r1, s1)" and 2: "exec n (h r1) s1 = Some (r, s')"
        using run Exec Try by (auto split: option.splits)
      have "attributed owner st b (R @ reads n owner (Exec q) s) s1" using IH[OF 1 a] .
      then have "attributed owner st b
          ((R @ reads n owner (Exec q) s) @ reads n owner (Exec (h r1)) s1) s'"
        by (rule IH[OF 2])
      then show ?thesis using Exec Try 1 by simp
    qed
  next
    case (EffectFn e)
    show ?thesis
    proof (cases "created e s")
      case False
      then show ?thesis using run a EffectFn by simp
    next
      case True
      let ?s2 = "activate e (cleanup e (emit (Run e) s))"
      have 1: "attributed (Some e) (st @ [e]) b R ?s2" using a by (rule attributed_enter)
      obtain r3 s3 where 2: "exec n (fn (effects ?s2 e)) ?s2 = Some (r3, s3)"
        using run EffectFn True by (auto simp: Let_def split: option.splits)
      have 3: "attributed (Some e) (st @ [e]) b (R @ reads n (Some e) (Exec (fn (effects ?s2 e))) ?s2) s3"
        using IH[OF 2 1] .
      have rd: "reads (Suc n) owner c s = reads n (Some e) (Exec (fn (effects ?s2 e))) ?s2"
        using EffectFn True by (simp add: Let_def)
      show ?thesis
      proof (cases r3)
        case Exc
        then have "s' = emit (Aborted e) s3" using run EffectFn True 2 by (simp add: Let_def)
        then show ?thesis using attributed_aborted[OF 3 attributed_top[OF a]] by simp
      next
        case (Normal v)
        then have "s' = deactivate s3" using run EffectFn True 2 by (simp add: Let_def)
        then show ?thesis using attributed_leave[OF 3 attributed_top[OF a]] rd by simp
      qed
    qed
  next
    case (Trigger t k)
    let ?s0 = "emit (Triggered t k) s"
    have 1: "attributed owner st b R ?s0" using a by (rule attributed_emit) simp
    show ?thesis
    proof (cases "targetMap s t")
      case None
      have "s' = ?s0" using run Trigger None by (auto simp: Let_def)
      moreover have "reads (Suc n) owner c s = []" using Trigger None by (simp add: Let_def)
      ultimately show ?thesis using 1 by simp
    next
      case (Some m)
      show ?thesis
      proof (cases "m k")
        case None
        have "s' = ?s0" using run Trigger Some None by (auto simp: Let_def)
        moreover have "reads (Suc n) owner c s = []" using Trigger Some None by (simp add: Let_def)
        ultimately show ?thesis using 1 by simp
      next
        case (Some dep)
        have 2: "forEach_effects n dep ?s0 = Some (r, s')"
          using run Trigger \<open>targetMap s t = Some m\<close> Some by (simp add: Let_def)
        show ?thesis using IH[OF 2 1] Trigger \<open>targetMap s t = Some m\<close> Some by (simp add: Let_def)
      qed
    qed
  next
    case (ForEach es)
    show ?thesis
    proof (cases es)
      case Nil
      then show ?thesis using run a ForEach by simp
    next
      case (Cons e es')
      have "bind (dispatch n e s) (\<lambda>_ s1. forEach_effects n es' s1) = Some (r, s')"
        using run ForEach Cons by simp
      then have "attributed owner st b
          ((R @ reads n owner (Dispatch e) s)
           @ and_then (dispatch n e s) (\<lambda>_ s1. reads n owner (ForEach es') s1)) s'"
        by (rule attributed_bind) (use IH a in blast)+
      then show ?thesis using ForEach Cons by simp
    qed
  next
    case (Dispatch e)
    let ?s0 = "emit (Dispatched e) s"
    have 1: "attributed owner st b R ?s0" using a by (rule attributed_emit) simp
    show ?thesis
    proof (cases "scheduler (effects s e)")
      case None
      have "attributed owner st b R (queueJob e ?s0)" using 1 by (rule attributed_same) simp_all
      moreover have "s' = queueJob e ?s0" using run Dispatch None by (auto simp: Let_def)
      moreover have "reads (Suc n) owner c s = []" using Dispatch None by (simp add: Let_def)
      ultimately show ?thesis by simp
    next
      case (Some sch)
      show ?thesis
      proof (cases sch)
        case (UserSched f)
        show ?thesis
        proof (cases e)
          case (Usr i)
          have 2: "exec n (f i) ?s0 = Some (r, s')"
            using run Dispatch Some UserSched Usr by (simp add: Let_def)
          show ?thesis using IH[OF 2 1] Dispatch Some UserSched Usr by (simp add: Let_def)
        next
          case (Inner c')
          have "s' = ?s0" using run Dispatch Some UserSched Inner by (auto simp: Let_def)
          moreover have "reads (Suc n) owner c s = []"
            using Dispatch Some UserSched Inner by (simp add: Let_def)
          ultimately show ?thesis using 1 by simp
        qed
      next
        case (CompSched c')
        have 2: "attributed owner st b R (mark_dirty c' ?s0)"
          using 1 by (rule attributed_same) simp_all
        have 3: "trigger n (Cmp c') ''value'' (mark_dirty c' ?s0) = Some (r, s')"
          using run Dispatch Some CompSched by (simp add: Let_def)
        show ?thesis using IH[OF 3 2] Dispatch Some CompSched by (simp add: Let_def)
      qed
    qed
  next
    case (SetProp x k v)
    show ?thesis
    proof (cases x)
      case (Raw a')
      have "attributed owner st b R (heap_set a' k v s)" using a by (rule attributed_same) simp_all
      then show ?thesis using run SetProp Raw by simp
    next
      case (Prx p t)
      obtain old s1 where g: "get_prop t k s = (old, s1)" by fastforce
      have 1: "attributed owner st b (R @ by_owner owner k (trapped t)) s1"
        using attributed_get_prop[OF a, of k t] g by simp
      let ?f = "\<lambda>result s2. if \<not> strict_eq old v
                 then bind (trigger n (Obj t) k s2) (\<lambda>_ s3. Some (Normal result, s3))
                 else Some (Normal result, s2)"
      let ?g = "\<lambda>(_::val) s2. if \<not> strict_eq old v then reads n owner (Trigger (Obj t) k) s2 else []"
      have b: "bind (set_prop n t k v s1) ?f = Some (r, s')"
        using run SetProp Prx g by simp
      have "attributed owner st b
          (((R @ by_owner owner k (trapped t)) @ reads n owner (SetProp t k v) s1)
           @ and_then (set_prop n t k v s1) ?g) s'"
        using b
      proof (rule attributed_bind)
        fix r1 s2 assume "set_prop n t k v s1 = Some (r1, s2)"
        then show "attributed owner st b
            ((R @ by_owner owner k (trapped t)) @ reads n owner (SetProp t k v) s1) s2"
          using IH 1 by blast
      next
        fix u s2
        assume f: "?f u s2 = Some (r, s')"
          and a2: "attributed owner st b
            ((R @ by_owner owner k (trapped t)) @ reads n owner (SetProp t k v) s1) s2"
        show "attributed owner st b
            (((R @ by_owner owner k (trapped t)) @ reads n owner (SetProp t k v) s1) @ ?g u s2) s'"
        proof (cases "strict_eq old v")
          case True
          then show ?thesis using f a2 by simp
        next
          case False
          then obtain r' where "trigger n (Obj t) k s2 = Some (r', s')"
            using f by (auto elim!: bind_SomeE)
          then have "attributed owner st b
              (((R @ by_owner owner k (trapped t)) @ reads n owner (SetProp t k v) s1)
               @ reads n owner (Trigger (Obj t) k) s2) s'"
            using a2 by (rule IH)
          then show ?thesis using False by simp
        qed
      qed
      then show ?thesis using SetProp Prx g by simp
    qed
  next
    case (ComputedValue c')
    let ?s0 = "emit (Read c') s"
    have 1: "attributed owner st b R ?s0" using a by (rule attributed_emit) simp
    show ?thesis
    proof (cases "comp_dirty s c'")
      case False
      have "s' = track (Cmp c') ''value'' ?s0" using run ComputedValue False by (auto simp: Let_def)
      then show ?thesis
        using attributed_track[OF 1, of "''value''" "Cmp c'"] ComputedValue False by (simp add: Let_def)
    next
      case True
      let ?f = "\<lambda>v s1. Some (Normal VUndef, cache c' v s1)"
      let ?h = "\<lambda>(_::val) s2. let s3 = track (Cmp c') ''value'' s2 in Some (Normal (comp_value s3 c'), s3)"
      have b: "bind (bind (effectFn n (Inner c') ?s0) ?f) ?h = Some (r, s')"
        using run ComputedValue True by (simp add: Let_def)
      have "attributed owner st b
          ((R @ reads n owner (EffectFn (Inner c')) ?s0)
           @ and_then (effectFn n (Inner c') ?s0) (\<lambda>_ s1. by_owner owner ''value'' [Cmp c'])) s'"
      proof (cases "effectFn n (Inner c') ?s0")
        case None
        then show ?thesis using b by (simp add: bind_def)
      next
        case (Some x)
        obtain r1 s1 where x: "x = (r1, s1)" by fastforce
        have e: "effectFn n (Inner c') ?s0 = Some (r1, s1)" using Some x by simp
        have 2: "attributed owner st b (R @ reads n owner (EffectFn (Inner c')) ?s0) s1"
          using IH[OF e 1] .
        show ?thesis
        proof (cases r1)
          case Exc
          then have "s' = s1" using b e by (simp add: bind_def)
          then show ?thesis using 2 e Exc by simp
        next
          case (Normal v)
          then have "s' = track (Cmp c') ''value'' (cache c' v s1)"
            using b e by (simp add: bind_def Let_def)
          moreover have "attributed owner st b (R @ reads n owner (EffectFn (Inner c')) ?s0)
              (cache c' v s1)"
            using 2 by (rule attributed_same) simp_all
          then have "attributed owner st b
              ((R @ reads n owner (EffectFn (Inner c')) ?s0) @ by_owner owner ''value'' [Cmp c'])
              (track (Cmp c') ''value'' (cache c' v s1))"
            by (rule attributed_track)
          ultimately show ?thesis using e Normal by simp
        qed
      qed
      then show ?thesis using ComputedValue True by (simp add: Let_def)
    qed
  qed
qed

lemma reads_EffectFn_owner: "reads n owner (EffectFn e) s = reads n None (EffectFn e) s"
  by (cases n) simp_all

text \<open>
  A run of an effect during which no effect function fails: the \<^verbatim>\<open>track\<close> calls
  registered are the reads of the run, each for the effect whose function made it, and
  the stack and the active effect are afterwards what the stack was before.
\<close>

lemma effect_run_tracked:
  assumes run: "effectFn n e s = Some (r, s')" and ok: "\<not> list_ex is_Aborted (since s s')"
  shows "tracked (since s s') = reads n None (EffectFn e) s"
    and "created e s \<Longrightarrow> \<exists>seg. since s s' = seg @ [Run e] \<and> tracked seg = reads n None (EffectFn e) s"
proof -
  obtain m where n: "n = Suc m" using run_Suc[OF run] by blast
  show "tracked (since s s') = reads n None (EffectFn e) s"
    and "created e s \<Longrightarrow> \<exists>seg. since s s' = seg @ [Run e] \<and> tracked seg = reads n None (EffectFn e) s"
  proof -
    have "tracked (since s s') = reads n None (EffectFn e) s \<and>
          (created e s \<longrightarrow> (\<exists>seg. since s s' = seg @ [Run e] \<and> tracked seg = reads n None (EffectFn e) s))"
    proof (cases "created e s")
      case False
      then have "s' = s" using run n by simp
      then show ?thesis using False n by simp
    next
      case True
      let ?s2 = "activate e (cleanup e (emit (Run e) s))"
      obtain r3 s3 where 2: "exec m (fn (effects ?s2 e)) ?s2 = Some (r3, s3)"
        using run n True by (auto simp: Let_def split: option.splits)
      have "attributed (Some e) (effectStack s @ [e]) (log ?s2) [] ?s2"
        by (simp add: attributed_def top_def)
      then have "attributed (Some e) (effectStack s @ [e]) (log ?s2)
          ([] @ reads m (Some e) (Exec (fn (effects ?s2 e))) ?s2) s3"
        by (rule run_attributed[OF 2])
      then obtain seg where seg: "log s3 = seg @ log ?s2"
          "\<not> list_ex is_Aborted seg \<longrightarrow> tracked seg = reads m (Some e) (Exec (fn (effects ?s2 e))) ?s2"
        unfolding attributed_def by auto
      have rd: "reads n None (EffectFn e) s = reads m (Some e) (Exec (fn (effects ?s2 e))) ?s2"
        using n True by (simp add: Let_def)
      show ?thesis
      proof (cases r3)
        case Exc
        then have "s' = emit (Aborted e) s3" using run n True 2 by (simp add: Let_def)
        then have "log s' = (Aborted e # seg @ [Run e]) @ log s" using seg(1) by simp
        then have "since s s' = Aborted e # seg @ [Run e]" by (rule grows_since)
        then show ?thesis using ok by simp
      next
        case (Normal v)
        then have "s' = deactivate s3" using run n True 2 by (simp add: Let_def)
        then have "log s' = (seg @ [Run e]) @ log s" using seg(1) by simp
        then have si: "since s s' = seg @ [Run e]" by (rule grows_since)
        then have "\<not> list_ex is_Aborted seg" using ok by simp
        then show ?thesis using seg(2) si rd by simp
      qed
    qed
    then show "tracked (since s s') = reads n None (EffectFn e) s"
      and "created e s \<Longrightarrow> \<exists>seg. since s s' = seg @ [Run e] \<and> tracked seg = reads n None (EffectFn e) s"
      by blast+
  qed
qed

lemma trigger_delivers_dep:
  assumes "trigger n t k s = Some (r, s')" and ok: "r \<noteq> Exc"
    and one: "length (filter is_Triggered (since s s')) = 1"
  shows "dispatched (since s s') = dep_of s t k"
proof -
  obtain m where n: "n = Suc m" using run_Suc[OF assms(1)] by blast
  let ?s0 = "emit (Triggered t k) s"
  show ?thesis
  proof (cases "targetMap s t = None \<or> (\<exists>m. targetMap s t = Some m \<and> m k = None)")
    case True
    then have "dep_of s t k = []" by (auto simp: dep_of_def)
    moreover have "s' = ?s0" using True assms(1) n by (auto simp: Let_def)
    then have "since s s' = [Triggered t k]" by (simp add: since_def)
    ultimately show ?thesis by simp
  next
    case False
    then obtain mp dep where mp: "targetMap s t = Some mp" "mp k = Some dep" by auto
    then have d: "dep_of s t k = dep" by (simp add: dep_of_def)
    have "forEach_effects m dep ?s0 = Some (r, s')" using assms(1) n mp by (simp add: Let_def)
    then have ret: "returns (ForEach dep) ?s0 r s'" by (rule run_returns)
    have "delivered (log ?s0) [] ?s0" by (simp add: delivered_def)
    then have "delivered (log ?s0) ([] @ expected (ForEach dep)) s'"
      using returns_delivered[OF ret, of "log ?s0" "[]"] ok by blast
    then have "delivered (log ?s0) dep s'" by simp
    then obtain seg where seg: "log s' = seg @ log ?s0"
      "\<not> list_ex is_Triggered seg \<longrightarrow> dispatched seg = dep"
      unfolding delivered_def by blast
    have "log s' = (seg @ [Triggered t k]) @ log s" using seg(1) by simp
    then have si: "since s s' = seg @ [Triggered t k]" by (rule grows_since)
    then have "\<not> list_ex is_Triggered seg"
      using one filter_Triggered_one[of seg t k] by simp
    then show ?thesis using seg(2) si d by simp
  qed
qed

lemma count_list_one_last:
  "count_list (seg @ [x]) x = 1 \<Longrightarrow> x \<notin> set seg"
  by (induction seg) (auto split: if_splits)

text \<open>
  C1 (amended). In a state of the engine, after a call of the handle of \<open>e\<close>, whatever its
  outcome, \<open>e\<close> is in the \<^verbatim>\<open>Set\<close> of (target, key) exactly when \<open>track\<close> registered that
  pair for \<open>e\<close> since the latest run of \<open>e\<close> began: older memberships are gone. If no
  effect function failed during the run and the handle of \<open>e\<close> was not called again
  within it, these are exactly the pairs that the function of \<open>e\<close> read during the run
  (\<open>reads\<close>): \<open>e\<close> is in the \<^verbatim>\<open>Set\<close> of a pair if and only if its function read it, and a
  \<open>trigger\<close> on a pair (one that returns, and calls no other \<open>trigger\<close>) hands \<open>e\<close>
  over if and only if its function read the pair.
\<close>

theorem effect_is_subscribed_to_what_it_read:
  assumes "graph_exact s" and "effectFn n e s = Some (r, s')"
  shows "graph_exact s'
       \<and> (\<forall>t k. (e \<in> set (dep_of s' t k)) = (Tracked e t k \<in> set (current_run e (log s'))))
       \<and> (\<not> list_ex is_Aborted (since s s') \<longrightarrow> count_list (since s s') (Run e) = 1 \<longrightarrow>
            (\<forall>t k. (e \<in> set (dep_of s' t k)) = ((e, t, k) \<in> set (reads n None (EffectFn e) s))
               \<and> (\<forall>m u s''. trigger m t k s' = Some (Normal u, s'')
                     \<longrightarrow> length (filter is_Triggered (since s' s'')) = 1
                     \<longrightarrow> (e \<in> set (dispatched (since s' s'')))
                          = ((e, t, k) \<in> set (reads n None (EffectFn e) s)))))"
proof -
  have g: "graph_exact s'" using assms by (rule graph_exact_run)
  have 2: "\<And>t k. (e \<in> set (dep_of s' t k)) = (Tracked e t k \<in> set (current_run e (log s')))"
    using graph_exactD(1,2)[OF g] by simp
  have 3: "(e \<in> set (dep_of s' t k)) = ((e, t, k) \<in> set (reads n None (EffectFn e) s))"
    if ok: "\<not> list_ex is_Aborted (since s s')" and one: "count_list (since s s') (Run e) = 1"
    for t k
  proof -
    have c: "created e s"
    proof (rule ccontr)
      assume "\<not> created e s"
      then have "s' = s" using assms(2) run_Suc[OF assms(2)] by auto
      then show False using one by simp
    qed
    obtain seg where seg: "since s s' = seg @ [Run e]"
        "tracked seg = reads n None (EffectFn e) s"
      using effect_run_tracked(2)[OF assms(2) ok c] by blast
    have "Run e \<notin> set seg" using one seg(1) count_list_one_last by metis
    moreover have "grows s s'" using assms(2) by (rule run_grows)
    then have "log s' = seg @ Run e # log s" using seg(1) by (simp add: grows_def)
    ultimately have "current_run e (log s') = seg" by (simp add: current_run_latest)
    then show ?thesis using 2[of t k] seg(2) tracked_mem[of e t k seg] by simp
  qed
  have 4: "(e \<in> set (dispatched (since s' s''))) = ((e, t, k) \<in> set (reads n None (EffectFn e) s))"
    if "\<not> list_ex is_Aborted (since s s')" "count_list (since s s') (Run e) = 1"
      "trigger m t k s' = Some (Normal u, s'')" "length (filter is_Triggered (since s' s'')) = 1"
    for t k m u s''
    using trigger_delivers_dep[OF that(3) _ that(4)] 3[OF that(1,2), of t k] by simp
  show ?thesis using g 2 3 4 by blast
qed

text \<open>
  The effect reads \<^verbatim>\<open>a\<close> while \<^verbatim>\<open>flag\<close> is true and \<^verbatim>\<open>b\<close> otherwise. After \<^verbatim>\<open>flag\<close>
  has become false the effect is run again: it read \<^verbatim>\<open>flag\<close> and \<^verbatim>\<open>b\<close>, it is in the
  \<^verbatim>\<open>Set\<close> of \<^verbatim>\<open>b\<close> and no longer in that of \<^verbatim>\<open>a\<close>; a \<open>trigger\<close> on \<^verbatim>\<open>a\<close> hands no effect
  over and a \<open>trigger\<close> on \<^verbatim>\<open>b\<close> hands this one over.
\<close>

theorem effect_is_subscribed_witness:
  "graph_exact c1_state
   \<and> effectFn 10 (Usr 0) c1_state = Some (Normal (VNum 2), c1_rerun)
   \<and> \<not> list_ex is_Aborted (since c1_state c1_rerun)
   \<and> count_list (since c1_state c1_rerun) (Run (Usr 0)) = 1
   \<and> reads 10 None (EffectFn (Usr 0)) c1_state
        = [(Usr 0, Obj (Raw 0), ''flag''), (Usr 0, Obj (Raw 0), ''b'')]
   \<and> dep_of c1_state (Obj (Raw 0)) ''a'' = [Usr 0]
   \<and> dep_of c1_state (Obj (Raw 0)) ''b'' = []
   \<and> graph_exact c1_rerun
   \<and> Usr 0 \<notin> set (dep_of c1_rerun (Obj (Raw 0)) ''a'')
   \<and> Usr 0 \<in> set (dep_of c1_rerun (Obj (Raw 0)) ''b'')
   \<and> trigger 5 (Obj (Raw 0)) ''a'' c1_rerun = Some (Normal VUndef, c1_trigger_a)
   \<and> trigger 5 (Obj (Raw 0)) ''b'' c1_rerun = Some (Normal VUndef, c1_trigger_b)
   \<and> Usr 0 \<notin> set (dispatched (since c1_rerun c1_trigger_a))
   \<and> Usr 0 \<in> set (dispatched (since c1_rerun c1_trigger_b))"
proof -
  have "exec 20 c1_script init = Some (Normal VUndef, c1_state)"
    by (rule the_SomeI2) (simp_all add: c1_state_def c1_script_def model_defs)
  then have g: "graph_exact c1_state" by (rule graph_exact_run[OF graph_exact_init])
  have f: "effectFn 10 (Usr 0) c1_state = Some (Normal (VNum 2), c1_rerun)"
    by (rule the_SomeI2) (simp_all add: c1_rerun_def c1_state_def c1_script_def model_defs)
  have v: "dep_of c1_state (Obj (Raw 0)) ''a'' = [Usr 0]"
    "dep_of c1_state (Obj (Raw 0)) ''b'' = []"
    by (simp_all add: c1_state_def c1_script_def model_defs)
  have w: "since c1_state c1_rerun =
        [Tracked (Usr 0) (Obj (Raw 0)) ''b'', Tracked (Usr 0) (Obj (Raw 0)) ''flag'', Run (Usr 0)]"
    by (simp add: since_def c1_rerun_def c1_state_def c1_script_def model_defs)
  have rd: "reads 10 None (EffectFn (Usr 0)) c1_state
        = [(Usr 0, Obj (Raw 0), ''flag''), (Usr 0, Obj (Raw 0), ''b'')]"
    by (simp add: c1_state_def c1_script_def model_defs)
  have ta: "trigger 5 (Obj (Raw 0)) ''a'' c1_rerun = Some (Normal VUndef, c1_trigger_a)"
    by (rule the_SomeI2)
       (simp_all add: c1_trigger_a_def c1_rerun_def c1_state_def c1_script_def model_defs)
  have tb: "trigger 5 (Obj (Raw 0)) ''b'' c1_rerun = Some (Normal VUndef, c1_trigger_b)"
    by (rule the_SomeI2)
       (simp_all add: c1_trigger_b_def c1_rerun_def c1_state_def c1_script_def model_defs)
  have t: "since c1_rerun c1_trigger_a = [Triggered (Obj (Raw 0)) ''a'']"
    "since c1_rerun c1_trigger_b = [Dispatched (Usr 0), Triggered (Obj (Raw 0)) ''b'']"
    by (simp_all add: since_def c1_trigger_a_def c1_trigger_b_def c1_rerun_def c1_state_def
          c1_script_def model_defs)
  have na: "\<not> list_ex is_Aborted (since c1_state c1_rerun)"
    and one: "count_list (since c1_state c1_rerun) (Run (Usr 0)) = 1"
    using w by simp_all
  have one_a: "length (filter is_Triggered (since c1_rerun c1_trigger_a)) = 1"
    and one_b: "length (filter is_Triggered (since c1_rerun c1_trigger_b)) = 1"
    using t by simp_all
  note th = effect_is_subscribed_to_what_it_read[OF g f]
  have g': "graph_exact c1_rerun" using th by blast
  have m: "(Usr 0 \<in> set (dep_of c1_rerun t k))
         = ((Usr 0, t, k) \<in> set (reads 10 None (EffectFn (Usr 0)) c1_state))" for t k
    using th na one by blast
  have d: "(Usr 0 \<in> set (dispatched (since c1_rerun s'')))
         = ((Usr 0, t, k) \<in> set (reads 10 None (EffectFn (Usr 0)) c1_state))"
    if "trigger 5 t k c1_rerun = Some (Normal VUndef, s'')"
      "length (filter is_Triggered (since c1_rerun s'')) = 1" for t k s''
    using th na one that by blast
  show ?thesis
    using g g' f na one v rd ta tb m[of "Obj (Raw 0)" "''a''"] m[of "Obj (Raw 0)" "''b''"]
      d[OF ta one_a] d[OF tb one_b]
    by simp
qed

section \<open>The active effect after an inner run\<close>

theorem stale_active_effect_counterexample:
  "effectFn 20 (Usr 2) c1_stale_state = Some (Normal VUndef, c1_stale_end)
   \<and> reads 20 None (EffectFn (Usr 2)) c1_stale_state = [(Usr 2, Obj (Raw 0), ''a'')]
   \<and> dep_of c1_stale_end (Obj (Raw 0)) ''a'' = [Usr 1]
   \<and> deps (effects c1_stale_end (Usr 2)) = []
   \<and> rev (since c1_stale_state c1_stale_end) =
       [Run (Usr 2), Run (Usr 1), Run (Usr 0), Aborted (Usr 0), Tracked (Usr 1) (Obj (Raw 0)) ''a'']
   \<and> trigger 5 (Obj (Raw 0)) ''a'' c1_stale_end = Some (Normal VUndef, c1_stale_triggered)
   \<and> dispatched (since c1_stale_end c1_stale_triggered) = [Usr 1]
   \<and> effectFn 20 (Usr 0) c1_again_state = Some (Normal VUndef, c1_again_end)
   \<and> reads 20 None (EffectFn (Usr 0)) c1_again_state
        = [(Usr 0, Obj (Raw 0), ''a''), (Usr 0, Obj (Raw 0), ''b'')]
   \<and> dep_of c1_again_end (Obj (Raw 0)) ''a'' = []
   \<and> dep_of c1_again_end (Obj (Raw 0)) ''b'' = [Usr 0]
   \<and> rev (since c1_again_state c1_again_end) =
       [Run (Usr 0), Tracked (Usr 0) (Obj (Raw 0)) ''a'',
        Run (Usr 0), Tracked (Usr 0) (Obj (Raw 0)) ''b'']"
proof -
  have "effectFn 20 (Usr 2) c1_stale_state = Some (Normal VUndef, c1_stale_end)"
    by (rule the_SomeI2)
       (simp_all add: c1_stale_end_def c1_stale_state_def c1_stale_script_def model_defs)
  moreover have "reads 20 None (EffectFn (Usr 2)) c1_stale_state = [(Usr 2, Obj (Raw 0), ''a'')]"
    by (simp add: c1_stale_state_def c1_stale_script_def model_defs)
  moreover have "trigger 5 (Obj (Raw 0)) ''a'' c1_stale_end = Some (Normal VUndef, c1_stale_triggered)"
    by (rule the_SomeI2)
       (simp_all add: c1_stale_triggered_def c1_stale_end_def c1_stale_state_def
          c1_stale_script_def model_defs)
  moreover have "dispatched (since c1_stale_end c1_stale_triggered) = [Usr 1]"
    by (simp add: since_def c1_stale_triggered_def c1_stale_end_def c1_stale_state_def
          c1_stale_script_def model_defs)
  moreover have "effectFn 20 (Usr 0) c1_again_state = Some (Normal VUndef, c1_again_end)"
    by (rule the_SomeI2)
       (simp_all add: c1_again_end_def c1_again_state_def c1_again_script_def model_defs)
  moreover have "reads 20 None (EffectFn (Usr 0)) c1_again_state
        = [(Usr 0, Obj (Raw 0), ''a''), (Usr 0, Obj (Raw 0), ''b'')]"
    by (simp add: c1_again_state_def c1_again_script_def model_defs)
  moreover have "dep_of c1_again_end (Obj (Raw 0)) ''a'' = []"
    "dep_of c1_again_end (Obj (Raw 0)) ''b'' = [Usr 0]"
    "rev (since c1_again_state c1_again_end) =
       [Run (Usr 0), Tracked (Usr 0) (Obj (Raw 0)) ''a'',
        Run (Usr 0), Tracked (Usr 0) (Obj (Raw 0)) ''b'']"
    by (simp_all add: since_def c1_again_end_def c1_again_state_def c1_again_script_def model_defs)
  ultimately show ?thesis
    by (simp add: since_def c1_stale_end_def c1_stale_state_def c1_stale_script_def model_defs)
qed

lemma reads_after_invoke:
  assumes run: "effectFn n e s = Some (Normal v, s')"
    and body: "fn (effects s e) = Invoke i (\<lambda>u. Get (Prx p t) k (f u))"
  shows "(e, Obj t, k) \<in> set (reads n None (EffectFn e) s)"
proof -
  obtain m where n: "n = Suc m" using run_Suc[OF run] by blast
  have c: "created e s" using run n by (auto split: if_splits)
  let ?s2 = "activate e (cleanup e (emit (Run e) s))"
  let ?g = "\<lambda>u. Get (Prx p t) k (f u)"
  have b: "fn (effects ?s2 e) = Invoke i ?g" using body by simp
  obtain s3 where 2: "exec m (Invoke i ?g) ?s2 = Some (Normal v, s3)"
    using run n c b by (auto simp: Let_def split: option.splits res.splits)
  obtain m1 where m: "m = Suc m1" using run_Suc[OF 2] by blast
  have "bind (effectFn m1 (Usr i) ?s2) (\<lambda>u s1. exec m1 (?g u) s1) = Some (Normal v, s3)"
    using 2 m by simp
  then obtain u s1 where 3: "effectFn m1 (Usr i) ?s2 = Some (Normal u, s1)"
      and 4: "exec m1 (Get (Prx p t) k (f u)) s1 = Some (Normal v, s3)"
    by (cases rule: bind_SomeE) simp_all
  obtain m2 where m1: "m1 = Suc m2" using run_Suc[OF 4] by blast
  have "reads n None (EffectFn e) s = reads m (Some e) (Exec (Invoke i ?g)) ?s2"
    using n c b by (simp add: Let_def)
  also have "\<dots> = reads m1 (Some e) (EffectFn (Usr i)) ?s2
                  @ reads m1 (Some e) (Exec (Get (Prx p t) k (f u))) s1"
    using m 3 by simp
  finally show ?thesis using m1 by (simp add: case_prod_beta)
qed

text \<open>
  C7 (amended). A call of the handle of an effect \<open>e\<close> that returns, no effect function
  having failed during it.
  \<^item> Seen from the caller: the stack is as before the call, and if the effect \<open>outer\<close>
    was on top of it, \<open>outer\<close> is the active effect again, so that a read that follows
    is tracked against \<open>outer\<close>.
  \<^item> Seen from the run of \<open>e\<close>: every read was registered for the effect whose function
    made it (\<open>reads\<close>), whether before or after the effects called meanwhile; so when the
    function of \<open>e\<close> calls an effect \<open>i\<close> and then reads \<^verbatim>\<open>k\<close> through a proxy of \<open>t\<close>, that
    read is registered for \<open>e\<close>.
\<close>

theorem inner_effect_restores_outer:
  assumes "effectFn n e s = Some (Normal v, s')"
    and "\<not> list_ex is_Aborted (since s s')"
  shows "effectStack s' = effectStack s
       \<and> (\<forall>st outer. effectStack s = st @ [outer] \<longrightarrow>
             effectStack s' = st @ [outer] \<and> activeEffect s' = Some outer
             \<and> (\<forall>t k. set (dep_of (track t k s') t k) = insert outer (set (dep_of s' t k))
                      \<and> log (track t k s') = Tracked outer t k # log s'))
       \<and> tracked (since s s') = reads n None (EffectFn e) s
       \<and> (\<forall>i p t k f. fn (effects s e) = Invoke i (\<lambda>u. Get (Prx p t) k (f u))
             \<longrightarrow> Tracked e (Obj t) k \<in> set (since s s'))"
proof -
  have 0: "effectStack s' = effectStack s" "activeEffect s' = top (effectStack s)"
    using effectFn_returned[OF assms] by simp_all
  have 1: "effectStack s' = st @ [outer] \<and> activeEffect s' = Some outer
       \<and> (\<forall>t k. set (dep_of (track t k s') t k) = insert outer (set (dep_of s' t k))
                \<and> log (track t k s') = Tracked outer t k # log s')"
    if "effectStack s = st @ [outer]" for st outer
  proof -
    have "effectStack s' = st @ [outer]" "activeEffect s' = Some outer"
      using 0 that by (simp_all add: top_def)
    then show ?thesis by (simp add: track_registers track_log)
  qed
  have 2: "tracked (since s s') = reads n None (EffectFn e) s"
    using assms by (rule effect_run_tracked(1))
  have 3: "Tracked e (Obj t) k \<in> set (since s s')"
    if "fn (effects s e) = Invoke i (\<lambda>u. Get (Prx p t) k (f u))" for i p t k f
    using reads_after_invoke[OF assms(1) that] 2 tracked_mem[of e "Obj t" k "since s s'"] by simp
  show ?thesis using 0(1) 1 2 3 by blast
qed

text \<open>
  The second effect is called while the third is on top of the stack: it calls the first
  effect and then reads \<^verbatim>\<open>a\<close>. The read is registered for the second effect, and when it
  has returned the third effect is active again.
\<close>

theorem inner_effect_witness:
  "effectFn 6 (Usr 1) c7_called = Some (Normal VUndef, c7_returned)
   \<and> \<not> list_ex is_Aborted (since c7_called c7_returned)
   \<and> effectStack c7_called = [] @ [Usr 2]
   \<and> effectStack c7_returned = [Usr 2] \<and> activeEffect c7_returned = Some (Usr 2)
   \<and> set (dep_of (track (Obj (Raw 0)) ''b'' c7_returned) (Obj (Raw 0)) ''b'')
        = insert (Usr 2) (set (dep_of c7_returned (Obj (Raw 0)) ''b''))
   \<and> reads 6 None (EffectFn (Usr 1)) c7_called = [(Usr 1, Obj (Raw 0), ''a'')]
   \<and> tracked (since c7_called c7_returned) = [(Usr 1, Obj (Raw 0), ''a'')]
   \<and> Tracked (Usr 1) (Obj (Raw 0)) ''a'' \<in> set (since c7_called c7_returned)
   \<and> rev (since c7_called c7_returned)
        = [Run (Usr 1), Run (Usr 0), Tracked (Usr 1) (Obj (Raw 0)) ''a'']"
proof -
  have f: "effectFn 6 (Usr 1) c7_called = Some (Normal VUndef, c7_returned)"
    by (rule the_SomeI2) (simp_all add: c7_returned_def c7_called_def c7_chain_def model_defs)
  have st: "effectStack c7_called = [] @ [Usr 2]"
    by (simp add: c7_called_def c7_chain_def model_defs)
  have l: "rev (since c7_called c7_returned)
        = [Run (Usr 1), Run (Usr 0), Tracked (Usr 1) (Obj (Raw 0)) ''a'']"
    by (simp add: since_def c7_returned_def c7_called_def c7_chain_def model_defs)
  then have l': "since c7_called c7_returned
        = rev [Run (Usr 1), Run (Usr 0), Tracked (Usr 1) (Obj (Raw 0)) ''a'']"
    by (metis rev_rev_ident)
  have n: "\<not> list_ex is_Aborted (since c7_called c7_returned)" using l' by simp
  have b: "fn (effects c7_called (Usr 1)) = Invoke 0 (\<lambda>u. Get (Prx 0 (Raw 0)) ''a'' ((\<lambda>u. Ret) u))"
    by (simp add: c7_called_def c7_chain_def model_defs)
  have rd: "reads 6 None (EffectFn (Usr 1)) c7_called = [(Usr 1, Obj (Raw 0), ''a'')]"
    by (simp add: c7_called_def c7_chain_def model_defs)
  note th = inner_effect_restores_outer[OF f n]
  have 1: "effectStack c7_returned = [] @ [Usr 2] \<and> activeEffect c7_returned = Some (Usr 2)
       \<and> set (dep_of (track (Obj (Raw 0)) ''b'' c7_returned) (Obj (Raw 0)) ''b'')
            = insert (Usr 2) (set (dep_of c7_returned (Obj (Raw 0)) ''b''))"
    using th st by blast
  have 2: "tracked (since c7_called c7_returned) = reads 6 None (EffectFn (Usr 1)) c7_called"
    using th by blast
  have "\<forall>i p t k f. fn (effects c7_called (Usr 1)) = Invoke i (\<lambda>u. Get (Prx p t) k (f u))
             \<longrightarrow> Tracked (Usr 1) (Obj t) k \<in> set (since c7_called c7_returned)"
    using th by blast
  then have 3: "Tracked (Usr 1) (Obj (Raw 0)) ''a'' \<in> set (since c7_called c7_returned)"
    using b by (elim allE[of _ 0] allE[of _ "Raw 0"] allE[of _ "''a''"] allE[of _ "\<lambda>u. Ret"]) simp
  show ?thesis using f n st 1 2 3 rd l by simp
qed

section \<open>Writes: what is compared and what is tracked\<close>

lemma stored_get_prop: "get_prop (Raw a) k s = (stored s a k, s)"
  by (simp add: stored_def)











section \<open>The flush and the handle of a job\<close>












end
